theory Spec2Isabelle
  imports Main "HOL-Library.Sublist" "HOL-Library.Multiset"
begin

section \<open>Strings and characters\<close>

text \<open>
  A Python \<open>str\<close> is a sequence of code points. The model takes a string to be a list of
  \<^typ>\<open>char\<close>, one \<^typ>\<open>char\<close> per code point, so that it covers exactly the strings
  over the code points U+0000 .. U+00FF (ASCII and Latin-1). Each of these 256 code
  points is classified as Python 3 classifies it. The normalizer is modelled a second
  time over all code points, with the tables of Unicode as a parameter.
\<close>

definition code :: "char \<Rightarrow> nat" where
  "code c = of_char c"

text \<open>
  \<open>str.lower()\<close>: on this range the upper-case letters are A-Z, U+00C0 .. U+00D6 and
  U+00D8 .. U+00DE, each mapped to the code point 32 above it; every other code point is
  its own lower case.
\<close>

definition is_upper :: "char \<Rightarrow> bool" where
  "is_upper c = ((65 \<le> code c \<and> code c \<le> 90) \<or> (192 \<le> code c \<and> code c \<le> 214)
     \<or> (216 \<le> code c \<and> code c \<le> 222))"

definition lower_char :: "char \<Rightarrow> char" where
  "lower_char c = (if is_upper c then char_of (code c + 32) else c)"

definition lower :: "string \<Rightarrow> string" where
  "lower s = map lower_char s"

text \<open>
  The class \<open>\s\<close> of \<open>re\<close> on a \<open>str\<close> pattern, which is also the set that
  \<open>str.strip()\<close> removes: TAB .. CR, FS .. US, the blank, U+0085 and U+00A0.
\<close>

definition is_space :: "char \<Rightarrow> bool" where
  "is_space c = ((9 \<le> code c \<and> code c \<le> 13) \<or> (28 \<le> code c \<and> code c \<le> 32)
     \<or> code c = 133 \<or> code c = 160)"

text \<open>
  The class \<open>\w\<close> of \<open>re\<close> on a \<open>str\<close> pattern: the alphanumeric code points and the
  underscore. On this range the alphanumeric code points are the digits, A-Z, a-z,
  U+00AA, U+00B2, U+00B3, U+00B5, U+00B9, U+00BA, U+00BC .. U+00BE, U+00C0 .. U+00D6,
  U+00D8 .. U+00F6 and U+00F8 .. U+00FF.
\<close>

definition is_alnum :: "char \<Rightarrow> bool" where
  "is_alnum c = ((48 \<le> code c \<and> code c \<le> 57) \<or> (65 \<le> code c \<and> code c \<le> 90)
     \<or> (97 \<le> code c \<and> code c \<le> 122)
     \<or> code c = 170 \<or> code c = 178 \<or> code c = 179 \<or> code c = 181 \<or> code c = 185
     \<or> code c = 186 \<or> (188 \<le> code c \<and> code c \<le> 190)
     \<or> (192 \<le> code c \<and> code c \<le> 214) \<or> (216 \<le> code c \<and> code c \<le> 246)
     \<or> (248 \<le> code c \<and> code c \<le> 255))"

definition is_word :: "char \<Rightarrow> bool" where
  "is_word c = (is_alnum c \<or> c = CHR ''_'')"

section \<open>normalize\_name\<close>

text \<open>
  \<^verbatim>\<open>
  def normalize_name(name):
      if not name:
          return ""
      normalized = re.sub(r'[^\w\s-]', '', str(name).lower())
      normalized = re.sub(r'[\s\-]+', ' ', normalized).strip()
      return normalized
  \<close>
\<close>

text \<open>The characters that \<open>[^\w\s-]\<close> does not match, which the first substitution keeps.\<close>

definition is_kept :: "char \<Rightarrow> bool" where
  "is_kept c = (is_word c \<or> is_space c \<or> c = CHR ''-'')"

definition remove_special :: "string \<Rightarrow> string" where
  "remove_special s = filter is_kept s"

text \<open>The characters that \<open>[\s\-]\<close> matches.\<close>

definition is_sep :: "char \<Rightarrow> bool" where
  "is_sep c = (is_space c \<or> c = CHR ''-'')"

text \<open>
  \<open>re.sub(r'[\s\-]+', ' ', s)\<close>: scanning from the left, each maximal run of separators
  (the match is greedy) is replaced by one blank.
\<close>

function collapse :: "string \<Rightarrow> string" where
  "collapse [] = []"
| "collapse (c # cs) =
     (if is_sep c then CHR '' '' # collapse (dropWhile is_sep cs) else c # collapse cs)"
  by pat_completeness auto
termination
  by (relation "measure length") (auto simp: length_dropWhile_le less_Suc_eq_le)

text \<open>\<open>str.strip()\<close>: leading and trailing whitespace is removed.\<close>

definition lstrip :: "string \<Rightarrow> string" where
  "lstrip s = dropWhile is_space s"

definition rstrip :: "string \<Rightarrow> string" where
  "rstrip s = rev (dropWhile is_space (rev s))"

definition strip :: "string \<Rightarrow> string" where
  "strip s = rstrip (lstrip s)"

definition normalize_name :: "string \<Rightarrow> string" where
  "normalize_name name =
     (if name = [] then []
      else strip (collapse (remove_special (lower name))))"

section \<open>The normalizer over all code points\<close>

text \<open>
  Here a string is a list of code points, each a natural number, and the tables of
  Unicode that the normalizer reads are a parameter: the full lower-case mapping of a
  code point, the properties cased and case-ignorable, the alphanumeric code points and
  the whitespace code points.
\<close>

record unicode_data =
  to_lower_full :: "nat \<Rightarrow> nat list"
  is_cased :: "nat \<Rightarrow> bool"
  is_case_ignorable :: "nat \<Rightarrow> bool"
  isalnum :: "nat \<Rightarrow> bool"
  isspace :: "nat \<Rightarrow> bool"

text \<open>
  \<open>str.lower()\<close> replaces every code point by its full lower-case mapping, which may be
  longer than one code point. The capital sigma U+03A3 (931) is the exception: it becomes
  the final small sigma U+03C2 (962) when it ends a word, and the small sigma U+03C3
  (963) otherwise. It ends a word when the nearest code point before it that is not
  case-ignorable exists and is cased, and the nearest such code point after it does not
  exist or is not cased. Both are looked up in the string as it was before lowering.
\<close>

definition final_sigma :: "unicode_data \<Rightarrow> nat list \<Rightarrow> nat list \<Rightarrow> bool" where
  "final_sigma U seen after =
     ((case dropWhile (is_case_ignorable U) (rev seen) of
         [] \<Rightarrow> False
       | c # _ \<Rightarrow> is_cased U c)
      \<and> (case dropWhile (is_case_ignorable U) after of
           [] \<Rightarrow> True
         | c # _ \<Rightarrow> \<not> is_cased U c))"

fun lower_from :: "unicode_data \<Rightarrow> nat list \<Rightarrow> nat list \<Rightarrow> nat list" where
  "lower_from U seen [] = []"
| "lower_from U seen (c # cs) =
     (if c = 931 then [if final_sigma U seen cs then 962 else 963]
      else to_lower_full U c)
     @ lower_from U (seen @ [c]) cs"

definition lower_points :: "unicode_data \<Rightarrow> nat list \<Rightarrow> nat list" where
  "lower_points U s = lower_from U [] s"

text \<open>
  The class \<open>\w\<close>, the code points that \<open>[^\w\s-]\<close> does not match, and the class
  \<open>[\s\-]\<close>; 95 is the underscore and 45 the hyphen.
\<close>

definition is_word_point :: "unicode_data \<Rightarrow> nat \<Rightarrow> bool" where
  "is_word_point U c = (isalnum U c \<or> c = 95)"

definition is_kept_point :: "unicode_data \<Rightarrow> nat \<Rightarrow> bool" where
  "is_kept_point U c = (is_word_point U c \<or> isspace U c \<or> c = 45)"

definition is_sep_point :: "unicode_data \<Rightarrow> nat \<Rightarrow> bool" where
  "is_sep_point U c = (isspace U c \<or> c = 45)"

text \<open>The second substitution; 32 is the blank.\<close>

function collapse_points :: "unicode_data \<Rightarrow> nat list \<Rightarrow> nat list" where
  "collapse_points U [] = []"
| "collapse_points U (c # cs) =
     (if is_sep_point U c then 32 # collapse_points U (dropWhile (is_sep_point U) cs)
      else c # collapse_points U cs)"
  by pat_completeness auto
termination
  by (relation "measure (\<lambda>(U, s). length s)") (auto simp: length_dropWhile_le less_Suc_eq_le)

definition strip_points :: "unicode_data \<Rightarrow> nat list \<Rightarrow> nat list" where
  "strip_points U s = rev (dropWhile (isspace U) (rev (dropWhile (isspace U) s)))"

definition normalize_points :: "unicode_data \<Rightarrow> nat list \<Rightarrow> nat list" where
  "normalize_points U name =
     (if name = [] then []
      else strip_points U (collapse_points U (filter (is_kept_point U) (lower_points U name))))"

section \<open>Roster records and name variations\<close>

text \<open>
  A roster entry is the dictionary built by the roster loader. Each field holds a string
  or is null (\<open>None\<close>), as in the rosters that the web service loads from the sheet.
  The rosters of the command-line script, whose fields may also be NaN, have a section
  of their own below; on entries of strings and \<open>None\<close> the two matchers agree.
\<close>

record player_info =
  full_name :: "string option"
  first_name :: "string option"
  last_name :: "string option"
  student_id :: "string option"
  parent1_first :: "string option"
  parent1_last :: "string option"
  parent2_first :: "string option"
  parent2_last :: "string option"

text \<open>Truth value of a field in a condition: \<open>None\<close> and the empty string are false.\<close>

fun truthy :: "string option \<Rightarrow> bool" where
  "truthy None = False"
| "truthy (Some s) = (s \<noteq> [])"

text \<open>
  What an f-string writes for a field. The generator formats a field, adds it to a set or
  calls \<open>replace\<close> on it only under a condition that the field is true, where it is a
  non-empty string and this is the string itself.
\<close>

fun py_str :: "string option \<Rightarrow> string" where
  "py_str None = ''None''"
| "py_str (Some s) = s"

text \<open>\<open>s.replace(a, b)\<close> for one-character \<open>a\<close> and \<open>b\<close>.\<close>

definition replace_char :: "char \<Rightarrow> char \<Rightarrow> string \<Rightarrow> string" where
  "replace_char a b s = map (\<lambda>c. if c = a then b else c) s"

text \<open>
  A Python \<open>set\<close> of strings is represented by the sequence of the \<open>add\<close> calls that
  built it: membership is membership in the sequence. The order in which a \<open>for\<close> loop
  visits the elements is not specified by Python; it is a parameter \<open>iter\<close> of the model,
  a function from the sequence of insertions to the sequence of visits, of which
  \<open>set_iteration\<close> says all that Python promises: every element is visited exactly once.
\<close>

definition set_iteration :: "(string list \<Rightarrow> string list) \<Rightarrow> bool" where
  "set_iteration iter = (\<forall>xs. distinct (iter xs) \<and> set (iter xs) = set xs)"

text \<open>
  \<^verbatim>\<open>
  if first and last:
      variations.add(f"{first} {last}")
      variations.add(f"{last} {first}")
      variations.add(f"{first}_{last}")
      variations.add(f"{last}_{first}")
      variations.add(f"{first}.{last}")
      variations.add(f"{last}.{first}")
      variations.add(f"{first}-{last}")
      variations.add(f"{last}-{first}")
      variations.add(first)
      variations.add(last)
  \<close>
\<close>

definition first_last_variations :: "string option \<Rightarrow> string option \<Rightarrow> string list" where
  "first_last_variations first_n last_n =
     (if truthy first_n \<and> truthy last_n then
        [py_str first_n @ '' '' @ py_str last_n,
         py_str last_n @ '' '' @ py_str first_n,
         py_str first_n @ ''_'' @ py_str last_n,
         py_str last_n @ ''_'' @ py_str first_n,
         py_str first_n @ ''.'' @ py_str last_n,
         py_str last_n @ ''.'' @ py_str first_n,
         py_str first_n @ ''-'' @ py_str last_n,
         py_str last_n @ ''-'' @ py_str first_n,
         py_str first_n,
         py_str last_n]
      else [])"

text \<open>
  \<^verbatim>\<open>
  if full:
      variations.add(full)
      variations.add(full.replace(' ', '_'))
      variations.add(full.replace(' ', '.'))
      variations.add(full.replace(' ', '-'))
  \<close>
\<close>

definition full_variations :: "string option \<Rightarrow> string list" where
  "full_variations full =
     (if truthy full then
        [py_str full,
         replace_char CHR '' '' CHR ''_'' (py_str full),
         replace_char CHR '' '' CHR ''.'' (py_str full),
         replace_char CHR '' '' CHR ''-'' (py_str full)]
      else [])"

text \<open>
  \<^verbatim>\<open>
  if parent_first and parent_last:
      variations.add(f"{parent_first} {parent_last}")
      variations.add(f"{parent_first}_{parent_last}")
      variations.add(f"{parent_last}_{parent_first}")
      variations.add(parent_first)
      variations.add(parent_last)
  \<close>
\<close>

definition parent_variations :: "string option \<Rightarrow> string option \<Rightarrow> string list" where
  "parent_variations parent_first parent_last =
     (if truthy parent_first \<and> truthy parent_last then
        [py_str parent_first @ '' '' @ py_str parent_last,
         py_str parent_first @ ''_'' @ py_str parent_last,
         py_str parent_last @ ''_'' @ py_str parent_first,
         py_str parent_first,
         py_str parent_last]
      else [])"

text \<open>The set \<open>variations\<close>, before normalization.\<close>

definition variations :: "player_info \<Rightarrow> string list" where
  "variations p =
     first_last_variations (first_name p) (last_name p)
     @ full_variations (full_name p)
     @ parent_variations (parent1_first p) (parent1_last p)
     @ parent_variations (parent2_first p) (parent2_last p)"

text \<open>
  \<^verbatim>\<open>
  normalized_variations = set()
  for var in variations:
      normalized = normalize_name(var)
      if normalized:
          normalized_variations.add(normalized)
  return normalized_variations
  \<close>
\<close>

definition generate_name_variations ::
  "(string list \<Rightarrow> string list) \<Rightarrow> player_info \<Rightarrow> string list" where
  "generate_name_variations iter p =
     filter (\<lambda>normalized. normalized \<noteq> []) (map normalize_name (iter (variations p)))"

section \<open>match\_photo\_to\_player\<close>

text \<open>\<open>Path(photo_name).name\<close>: the last component that is neither empty nor a dot.\<close>

fun split_on :: "char \<Rightarrow> string \<Rightarrow> string list" where
  "split_on d [] = [] # []"
| "split_on d (c # cs) =
     (if c = d then [] # split_on d cs
      else (case split_on d cs of [] \<Rightarrow> [c] # [] | w # ws \<Rightarrow> (c # w) # ws))"

definition path_name :: "string \<Rightarrow> string" where
  "path_name path =
     (case rev (filter (\<lambda>x. x \<noteq> [] \<and> x \<noteq> ''.'') (split_on CHR ''/'' path)) of
        [] \<Rightarrow> []
      | x # _ \<Rightarrow> x)"

text \<open>\<open>s.rfind(c)\<close>, with \<open>None\<close> for -1.\<close>

definition rfind :: "char \<Rightarrow> string \<Rightarrow> nat option" where
  "rfind c s =
     (if c \<in> set s then Some (length s - 1 - length (takeWhile (\<lambda>d. d \<noteq> c) (rev s)))
      else None)"

text \<open>
  \<open>Path(photo_name).stem\<close> on a POSIX system: the name up to its last dot, when that dot
  is neither the first nor the last character of the name.
\<close>

definition stem :: "string \<Rightarrow> string" where
  "stem path =
     (let name = path_name path in
      case rfind CHR ''.'' name of
        None \<Rightarrow> name
      | Some i \<Rightarrow> if 0 < i \<and> i + 1 < length name then take i name else name)"

text \<open>\<open>a in b\<close> on strings: \<open>a\<close> occurs in \<open>b\<close> as a contiguous substring.\<close>

fun str_in :: "string \<Rightarrow> string \<Rightarrow> bool" where
  "str_in a [] = (a = [])"
| "str_in a (c # cs) = (prefix a (c # cs) \<or> str_in a cs)"

record candidate =
  player :: player_info
  confidence :: string
  match_type :: string
  matched_variation :: string

datatype error = KeyError string | AttributeError string

text \<open>
  \<^verbatim>\<open>
  for variation in player_variations:
      if len(variation) > 2:
          if variation in normalized_filename or normalized_filename in variation:
              matches.append({'player': player, 'confidence': 'medium',
                              'match_type': 'partial', 'matched_variation': variation})
              break
  \<close>
  The function returns what the loop appends, given the variations in the order the loop
  visits them.
\<close>

fun partial_matches :: "player_info \<Rightarrow> string \<Rightarrow> string list \<Rightarrow> candidate list" where
  "partial_matches p normalized_filename [] = []"
| "partial_matches p normalized_filename (variation # vs) =
     (if length variation > 2
         \<and> (str_in variation normalized_filename \<or> str_in normalized_filename variation)
      then [\<lparr>player = p, confidence = ''medium'', match_type = ''partial'',
             matched_variation = variation\<rparr>]
      else partial_matches p normalized_filename vs)"

text \<open>The body of the loop over the players: what one player appends to \<open>matches\<close>.\<close>

definition player_matches ::
  "(string list \<Rightarrow> string list) \<Rightarrow> string \<Rightarrow> player_info \<Rightarrow> candidate list" where
  "player_matches iter normalized_filename p =
     (let player_variations = generate_name_variations iter p in
      if normalized_filename \<in> set player_variations
      then [\<lparr>player = p, confidence = ''high'', match_type = ''exact'',
             matched_variation = normalized_filename\<rparr>]
      else partial_matches p normalized_filename (iter player_variations))"

fun collect_matches ::
  "(string list \<Rightarrow> string list) \<Rightarrow> string \<Rightarrow> player_info list \<Rightarrow> candidate list" where
  "collect_matches iter normalized_filename [] = []"
| "collect_matches iter normalized_filename (p # ps) =
     player_matches iter normalized_filename p @ collect_matches iter normalized_filename ps"

text \<open>
  \<^verbatim>\<open>
  confidence_order = {'high': 3, 'medium': 2, 'low': 1}
  matches.sort(key=lambda x: confidence_order[x['confidence']], reverse=True)
  \<close>
  The keys are computed first, and a confidence that is not in the dictionary raises
  \<open>KeyError\<close>. The sort is stable, and \<open>reverse=True\<close> keeps the order of the elements
  with equal keys: the list is reversed, sorted in ascending order and reversed again.
\<close>

definition confidence_order :: "string \<rightharpoonup> nat" where
  "confidence_order = map_of [(''high'', 3), (''medium'', 2), (''low'', 1)]"

fun sort_keys :: "candidate list \<Rightarrow> error + (nat \<times> candidate) list" where
  "sort_keys [] = Inr []"
| "sort_keys (x # xs) =
     (case confidence_order (confidence x) of
        None \<Rightarrow> Inl (KeyError (confidence x))
      | Some k \<Rightarrow> (case sort_keys xs of Inl e \<Rightarrow> Inl e | Inr ks \<Rightarrow> Inr ((k, x) # ks)))"

definition sort_reverse :: "(nat \<times> candidate) list \<Rightarrow> candidate list" where
  "sort_reverse ks = map snd (rev (sort_key fst (rev ks)))"

definition match_photo_to_player ::
  "(string list \<Rightarrow> string list) \<Rightarrow> string \<Rightarrow> player_info list \<Rightarrow> error + candidate list" where
  "match_photo_to_player iter photo_name players =
     (let base_name = stem photo_name;
          normalized_filename = normalize_name base_name;
          matches = collect_matches iter normalized_filename players
      in case sort_keys matches of
           Inl e \<Rightarrow> Inl e
         | Inr ks \<Rightarrow> Inr (sort_reverse ks))"

section \<open>create\_photo\_mappings\<close>

text \<open>The fields of a photo dictionary that the mapping reads (\<open>id\<close>, \<open>name\<close>, \<open>thumbnailLink\<close>, \<open>directLink\<close>).\<close>

record photo =
  id_photo :: string
  name_photo :: string
  thumbnailLink :: string
  directLink :: string

record mapping =
  m_photo_id :: string
  m_filename :: string
  m_thumbnail_url :: string
  m_direct_link :: string
  m_matched_player :: "string option"
  m_confidence :: string
  m_match_type :: string
  m_matched_variation :: string
  m_student_id :: "string option"
  m_alternative_matches :: "string list"

text \<open>\<^verbatim>\<open>f"{m['player']['full_name']} ({m['confidence']})"\<close>\<close>

definition alternative :: "candidate \<Rightarrow> string" where
  "alternative m = py_str (full_name (player m)) @ '' ('' @ confidence m @ '')''"

text \<open>
  \<^verbatim>\<open>
  if matches:
      best_match = matches[0]
      mapping = {..., 'matched_player': best_match['player']['full_name'],
                 'confidence': best_match['confidence'], ...,
                 'alternative_matches': [f"..." for m in matches[1:3]]
                                        if len(matches) > 1 else []}
  else:
      mapping = {..., 'matched_player': '', 'confidence': 'medium',
                 'match_type': 'no_match', 'matched_variation': '',
                 'student_id': '', 'alternative_matches': []}
  \<close>
\<close>

definition photo_mapping :: "photo \<Rightarrow> candidate list \<Rightarrow> mapping" where
  "photo_mapping ph matches =
     (case matches of
        best_match # _ \<Rightarrow>
          \<lparr>m_photo_id = id_photo ph,
           m_filename = name_photo ph,
           m_thumbnail_url = thumbnailLink ph,
           m_direct_link = directLink ph,
           m_matched_player = full_name (player best_match),
           m_confidence = confidence best_match,
           m_match_type = match_type best_match,
           m_matched_variation = matched_variation best_match,
           m_student_id = student_id (player best_match),
           m_alternative_matches =
             (if length matches > 1 then map alternative (take 2 (drop 1 matches)) else [])\<rparr>
      | [] \<Rightarrow>
          \<lparr>m_photo_id = id_photo ph,
           m_filename = name_photo ph,
           m_thumbnail_url = thumbnailLink ph,
           m_direct_link = directLink ph,
           m_matched_player = Some [],
           m_confidence = ''medium'',
           m_match_type = ''no_match'',
           m_matched_variation = [],
           m_student_id = Some [],
           m_alternative_matches = []\<rparr>)"

fun create_photo_mappings ::
  "(string list \<Rightarrow> string list) \<Rightarrow> photo list \<Rightarrow> player_info list \<Rightarrow> error + mapping list" where
  "create_photo_mappings iter [] players = Inr []"
| "create_photo_mappings iter (ph # phs) players =
     (case match_photo_to_player iter (name_photo ph) players of
        Inl e \<Rightarrow> Inl e
      | Inr matches \<Rightarrow>
          (case create_photo_mappings iter phs players of
             Inl e \<Rightarrow> Inl e
           | Inr mappings \<Rightarrow> Inr (photo_mapping ph matches # mappings)))"

section \<open>Rosters read from a CSV file\<close>

text \<open>
  The command-line script reads the roster from a CSV file with pandas
  (\<open>load_roster_data\<close>). In the data frame an empty cell is the float NaN, so a field of
  a roster entry is a string, \<open>None\<close> or NaN. NaN is true in a condition, \<open>str()\<close> and an
  f-string write it as \<open>nan\<close>, and it has no method \<open>replace\<close>: the call raises
  \<open>AttributeError\<close>. The functions of this section are the matcher of the script on such
  entries, with every raise as a result.
\<close>

datatype pyval = PyNone | PyStr string | PyNaN

text \<open>Truth value in a condition.\<close>

fun py_bool :: "pyval \<Rightarrow> bool" where
  "py_bool PyNone = False"
| "py_bool (PyStr s) = (s \<noteq> [])"
| "py_bool PyNaN = True"

text \<open>\<open>str(x)\<close>, which is also what an f-string writes.\<close>

fun py_format :: "pyval \<Rightarrow> string" where
  "py_format PyNone = ''None''"
| "py_format (PyStr s) = s"
| "py_format PyNaN = ''nan''"

text \<open>\<open>x.replace(a, b)\<close>: only a string has the method.\<close>

fun py_replace :: "pyval \<Rightarrow> char \<Rightarrow> char \<Rightarrow> error + pyval" where
  "py_replace (PyStr s) a b = Inr (PyStr (replace_char a b s))"
| "py_replace PyNone a b = Inl (AttributeError ''replace'')"
| "py_replace PyNaN a b = Inl (AttributeError ''replace'')"

record csv_player =
  csv_full_name :: pyval
  csv_first_name :: pyval
  csv_last_name :: pyval
  csv_student_id :: pyval
  csv_parent1_first :: pyval
  csv_parent1_last :: pyval
  csv_parent2_first :: pyval
  csv_parent2_last :: pyval

text \<open>
  \<open>normalize_name\<close> on any value: \<open>if not name: return ""\<close>, then the substitutions on
  \<open>str(name).lower()\<close>.
\<close>

definition csv_normalize_name :: "pyval \<Rightarrow> string" where
  "csv_normalize_name name =
     (if \<not> py_bool name then []
      else strip (collapse (remove_special (lower (py_format name)))))"

text \<open>
  The set \<open>variations\<close> holds the strings that the f-strings build and the fields
  themselves, which \<open>variations.add(first)\<close> and the like add as they are.
\<close>

definition csv_first_last_variations :: "pyval \<Rightarrow> pyval \<Rightarrow> pyval list" where
  "csv_first_last_variations first_n last_n =
     (if py_bool first_n \<and> py_bool last_n then
        [PyStr (py_format first_n @ '' '' @ py_format last_n),
         PyStr (py_format last_n @ '' '' @ py_format first_n),
         PyStr (py_format first_n @ ''_'' @ py_format last_n),
         PyStr (py_format last_n @ ''_'' @ py_format first_n),
         PyStr (py_format first_n @ ''.'' @ py_format last_n),
         PyStr (py_format last_n @ ''.'' @ py_format first_n),
         PyStr (py_format first_n @ ''-'' @ py_format last_n),
         PyStr (py_format last_n @ ''-'' @ py_format first_n),
         first_n,
         last_n]
      else [])"

text \<open>
  \<open>variations.add(full)\<close> and the three calls of \<open>full.replace\<close>, in this order, under
  \<open>if full:\<close>. The first call that raises ends the function.
\<close>

definition csv_full_variations :: "pyval \<Rightarrow> error + pyval list" where
  "csv_full_variations full =
     (if py_bool full then
        (case py_replace full CHR '' '' CHR ''_'' of
           Inl e \<Rightarrow> Inl e
         | Inr u \<Rightarrow>
             (case py_replace full CHR '' '' CHR ''.'' of
                Inl e \<Rightarrow> Inl e
              | Inr d \<Rightarrow>
                  (case py_replace full CHR '' '' CHR ''-'' of
                     Inl e \<Rightarrow> Inl e
                   | Inr h \<Rightarrow> Inr [full, u, d, h])))
      else Inr [])"

definition csv_parent_variations :: "pyval \<Rightarrow> pyval \<Rightarrow> pyval list" where
  "csv_parent_variations parent_first parent_last =
     (if py_bool parent_first \<and> py_bool parent_last then
        [PyStr (py_format parent_first @ '' '' @ py_format parent_last),
         PyStr (py_format parent_first @ ''_'' @ py_format parent_last),
         PyStr (py_format parent_last @ ''_'' @ py_format parent_first),
         parent_first,
         parent_last]
      else [])"

definition csv_variations :: "csv_player \<Rightarrow> error + pyval list" where
  "csv_variations p =
     (case csv_full_variations (csv_full_name p) of
        Inl e \<Rightarrow> Inl e
      | Inr full_vs \<Rightarrow>
          Inr (csv_first_last_variations (csv_first_name p) (csv_last_name p)
               @ full_vs
               @ csv_parent_variations (csv_parent1_first p) (csv_parent1_last p)
               @ csv_parent_variations (csv_parent2_first p) (csv_parent2_last p)))"

text \<open>
  The loop over \<open>variations\<close> visits a set of values; its order is the parameter
  \<open>iter_v\<close>.
\<close>

definition csv_generate_name_variations ::
  "(pyval list \<Rightarrow> pyval list) \<Rightarrow> csv_player \<Rightarrow> error + string list" where
  "csv_generate_name_variations iter_v p =
     (case csv_variations p of
        Inl e \<Rightarrow> Inl e
      | Inr vs \<Rightarrow>
          Inr (filter (\<lambda>normalized. normalized \<noteq> []) (map csv_normalize_name (iter_v vs))))"

record csv_candidate =
  csv_player :: csv_player
  csv_confidence :: string
  csv_match_type :: string
  csv_matched_variation :: string

fun csv_partial_matches :: "csv_player \<Rightarrow> string \<Rightarrow> string list \<Rightarrow> csv_candidate list" where
  "csv_partial_matches p normalized_filename [] = []"
| "csv_partial_matches p normalized_filename (variation # vs) =
     (if length variation > 2
         \<and> (str_in variation normalized_filename \<or> str_in normalized_filename variation)
      then [\<lparr>csv_player = p, csv_confidence = ''medium'', csv_match_type = ''partial'',
             csv_matched_variation = variation\<rparr>]
      else csv_partial_matches p normalized_filename vs)"

definition csv_player_matches ::
  "(pyval list \<Rightarrow> pyval list) \<Rightarrow> (string list \<Rightarrow> string list) \<Rightarrow> string \<Rightarrow> csv_player
   \<Rightarrow> error + csv_candidate list" where
  "csv_player_matches iter_v iter normalized_filename p =
     (case csv_generate_name_variations iter_v p of
        Inl e \<Rightarrow> Inl e
      | Inr player_variations \<Rightarrow>
          if normalized_filename \<in> set player_variations
          then Inr [\<lparr>csv_player = p, csv_confidence = ''high'', csv_match_type = ''exact'',
                     csv_matched_variation = normalized_filename\<rparr>]
          else Inr (csv_partial_matches p normalized_filename (iter player_variations)))"

fun csv_collect_matches ::
  "(pyval list \<Rightarrow> pyval list) \<Rightarrow> (string list \<Rightarrow> string list) \<Rightarrow> string \<Rightarrow> csv_player list
   \<Rightarrow> error + csv_candidate list" where
  "csv_collect_matches iter_v iter normalized_filename [] = Inr []"
| "csv_collect_matches iter_v iter normalized_filename (p # ps) =
     (case csv_player_matches iter_v iter normalized_filename p of
        Inl e \<Rightarrow> Inl e
      | Inr ms \<Rightarrow>
          (case csv_collect_matches iter_v iter normalized_filename ps of
             Inl e \<Rightarrow> Inl e
           | Inr rest \<Rightarrow> Inr (ms @ rest)))"

fun csv_sort_keys :: "csv_candidate list \<Rightarrow> error + (nat \<times> csv_candidate) list" where
  "csv_sort_keys [] = Inr []"
| "csv_sort_keys (x # xs) =
     (case confidence_order (csv_confidence x) of
        None \<Rightarrow> Inl (KeyError (csv_confidence x))
      | Some k \<Rightarrow> (case csv_sort_keys xs of Inl e \<Rightarrow> Inl e | Inr ks \<Rightarrow> Inr ((k, x) # ks)))"

text \<open>An exception in the loop over the players leaves \<open>match_photo_to_player\<close>.\<close>

definition csv_match_photo_to_player ::
  "(pyval list \<Rightarrow> pyval list) \<Rightarrow> (string list \<Rightarrow> string list) \<Rightarrow> string \<Rightarrow> csv_player list
   \<Rightarrow> error + csv_candidate list" where
  "csv_match_photo_to_player iter_v iter photo_name players =
     (let base_name = stem photo_name;
          normalized_filename = normalize_name base_name
      in case csv_collect_matches iter_v iter normalized_filename players of
           Inl e \<Rightarrow> Inl e
         | Inr matches \<Rightarrow>
             (case csv_sort_keys matches of
                Inl e \<Rightarrow> Inl e
              | Inr ks \<Rightarrow> Inr (map snd (rev (sort_key fst (rev ks))))))"

section \<open>The normalizer in the words of the specification\<close>

text \<open>
  A second definition of the normalizer, which follows the description of it: the input
  is lower-cased, every character that is not a letter, a digit, an underscore, whitespace
  or a hyphen is deleted, and what remains is cut into its words, the maximal runs of
  characters that are neither whitespace nor hyphens; the result is the words joined by
  single blanks.
\<close>

function words_of :: "string \<Rightarrow> string list" where
  "words_of [] = []"
| "words_of (c # cs) =
     (if is_sep c then words_of (dropWhile is_sep cs)
      else (c # takeWhile (\<lambda>d. \<not> is_sep d) cs) # words_of (dropWhile (\<lambda>d. \<not> is_sep d) cs))"
  by pat_completeness auto
termination
  by (relation "measure length") (auto simp: length_dropWhile_le less_Suc_eq_le)

fun join_blank :: "string list \<Rightarrow> string" where
  "join_blank [] = []"
| "join_blank (w # ws) = (if ws = [] then w else w @ CHR '' '' # join_blank ws)"

definition normalize_spec :: "string \<Rightarrow> string" where
  "normalize_spec s =
     join_blank (words_of
       (filter (\<lambda>c. is_alnum c \<or> c = CHR ''_'' \<or> is_space c \<or> c = CHR ''-'') (lower s)))"

section \<open>Notions used in the statements\<close>

text \<open>The sort key of a candidate whose confidence is in the dictionary.\<close>

definition rank :: "candidate \<Rightarrow> nat" where
  "rank c = (case confidence_order (confidence c) of None \<Rightarrow> 0 | Some k \<Rightarrow> k)"

text \<open>The two pairs of tags that go together.\<close>

definition well_tagged :: "candidate \<Rightarrow> bool" where
  "well_tagged c = ((match_type c = ''exact'' \<and> confidence c = ''high'')
     \<or> (match_type c = ''partial'' \<and> confidence c = ''medium''))"

text \<open>
  Every separator of the string is a blank, and no separator comes directly after it.
\<close>

fun blanks_single :: "string \<Rightarrow> bool" where
  "blanks_single [] = True"
| "blanks_single (c # cs) =
     ((is_sep c \<longrightarrow> c = CHR '' '' \<and> (cs = [] \<or> \<not> is_sep (hd cs))) \<and> blanks_single cs)"

text \<open>
  Every separator of the string is a blank that stands directly before a character
  that is no separator: blanks are single and the string does not end with one.
\<close>

fun blanks_inside :: "string \<Rightarrow> bool" where
  "blanks_inside [] = True"
| "blanks_inside (c # cs) =
     ((is_sep c \<longrightarrow> c = CHR '' '' \<and> cs \<noteq> [] \<and> \<not> is_sep (hd cs)) \<and> blanks_inside cs)"

text \<open>
  The shape of a normalized name: lower-case word characters and single blanks, with no
  blank at either end.
\<close>

definition normalized :: "string \<Rightarrow> bool" where
  "normalized t = ((t = [] \<or> \<not> is_sep (hd t)) \<and> blanks_inside t
     \<and> (\<forall>c \<in> set t. (is_word c \<and> \<not> is_upper c) \<or> c = CHR '' ''))"

text \<open>
  What the idempotence of the normalizer uses of the tables of Unicode. A code point of
  a lower-case mapping is not the capital sigma and is its own lower-case mapping, and so
  are both small sigmas and the blank. The blank is whitespace, no alphanumeric code point
  is whitespace, the hyphen is not alphanumeric and the underscore is not whitespace. Each
  of these holds of the tables of CPython 3.11 (Unicode 14.0), in which U+0130 is the
  only code point whose lower-case mapping is longer than one code point.
\<close>

definition unicode_facts :: "unicode_data \<Rightarrow> bool" where
  "unicode_facts U =
     ((\<forall>c. \<forall>d \<in> set (to_lower_full U c). d \<noteq> 931 \<and> to_lower_full U d = [d])
      \<and> to_lower_full U 962 = [962] \<and> to_lower_full U 963 = [963]
      \<and> to_lower_full U 32 = [32]
      \<and> isspace U 32
      \<and> (\<forall>c. isalnum U c \<longrightarrow> \<not> isspace U c)
      \<and> \<not> isalnum U 45 \<and> \<not> isspace U 95)"

text \<open>The shape of a normalized name, over code points.\<close>

fun point_blanks_single :: "unicode_data \<Rightarrow> nat list \<Rightarrow> bool" where
  "point_blanks_single U [] = True"
| "point_blanks_single U (c # cs) =
     ((is_sep_point U c \<longrightarrow> c = 32 \<and> (cs = [] \<or> \<not> is_sep_point U (hd cs)))
      \<and> point_blanks_single U cs)"

fun point_blanks_inside :: "unicode_data \<Rightarrow> nat list \<Rightarrow> bool" where
  "point_blanks_inside U [] = True"
| "point_blanks_inside U (c # cs) =
     ((is_sep_point U c \<longrightarrow> c = 32 \<and> cs \<noteq> [] \<and> \<not> is_sep_point U (hd cs))
      \<and> point_blanks_inside U cs)"

definition rstrip_points :: "unicode_data \<Rightarrow> nat list \<Rightarrow> nat list" where
  "rstrip_points U s = rev (dropWhile (isspace U) (rev s))"

definition normalized_points :: "unicode_data \<Rightarrow> nat list \<Rightarrow> bool" where
  "normalized_points U t = ((t = [] \<or> \<not> is_sep_point U (hd t)) \<and> point_blanks_inside U t
     \<and> (\<forall>c \<in> set t. (is_word_point U c \<and> c \<noteq> 931 \<and> to_lower_full U c = [c]) \<or> c = 32))"

text \<open>The candidates that the matcher of the script appends carry one of the two confidences.\<close>

definition csv_well_tagged :: "csv_candidate \<Rightarrow> bool" where
  "csv_well_tagged c = (csv_confidence c = ''high'' \<or> csv_confidence c = ''medium'')"

text \<open>A roster entry of strings and \<open>None\<close> as an entry of the script, and a candidate likewise.\<close>

fun as_pyval :: "string option \<Rightarrow> pyval" where
  "as_pyval None = PyNone"
| "as_pyval (Some s) = PyStr s"

definition as_csv_player :: "player_info \<Rightarrow> csv_player" where
  "as_csv_player p =
     \<lparr>csv_full_name = as_pyval (full_name p), csv_first_name = as_pyval (first_name p),
      csv_last_name = as_pyval (last_name p), csv_student_id = as_pyval (student_id p),
      csv_parent1_first = as_pyval (parent1_first p),
      csv_parent1_last = as_pyval (parent1_last p),
      csv_parent2_first = as_pyval (parent2_first p),
      csv_parent2_last = as_pyval (parent2_last p)\<rparr>"

definition as_csv_candidate :: "candidate \<Rightarrow> csv_candidate" where
  "as_csv_candidate c =
     \<lparr>csv_player = as_csv_player (player c), csv_confidence = confidence c,
      csv_match_type = match_type c, csv_matched_variation = matched_variation c\<rparr>"

section \<open>Example rosters\<close>

text \<open>A roster entry as the sheet loader builds it: every field is a string.\<close>

definition person :: "string \<Rightarrow> string \<Rightarrow> string \<Rightarrow> player_info" where
  "person first_n last_n full =
     \<lparr>full_name = Some full, first_name = Some first_n, last_name = Some last_n,
      student_id = Some [], parent1_first = Some [], parent1_last = Some [],
      parent2_first = Some [], parent2_last = Some []\<rparr>"

definition doe_roster :: "player_info list" where
  "doe_roster = [person ''Jane'' ''Doey'' ''Jane Doey'', person ''Jon'' ''Doe'' ''Jon Doe'',
     person ''Amy'' ''Doeson'' ''Amy Doeson'']"

text \<open>
  What \<open>doe.jpg\<close> matches in that roster when a set is visited in the order
  \<^const>\<open>remdups\<close> gives.
\<close>

definition doe_result :: "candidate list" where
  "doe_result =
     [\<lparr>player = person ''Jon'' ''Doe'' ''Jon Doe'', confidence = ''high'',
       match_type = ''exact'', matched_variation = ''doe''\<rparr>,
      \<lparr>player = person ''Jane'' ''Doey'' ''Jane Doey'', confidence = ''medium'',
       match_type = ''partial'', matched_variation = ''doey_jane''\<rparr>,
      \<lparr>player = person ''Amy'' ''Doeson'' ''Amy Doeson'', confidence = ''medium'',
       match_type = ''partial'', matched_variation = ''doeson_amy''\<rparr>]"

text \<open>An entry whose only name is a full name of two letters.\<close>

definition initials_only :: player_info where
  "initials_only = person [] [] ''Jo''"

text \<open>The entries of the two scenarios: Jane Doe with and without a full name.\<close>

definition jane_doe :: player_info where
  "jane_doe = person ''Jane'' ''Doe'' ''Jane Doe''"

definition jane_only :: player_info where
  "jane_only = person ''Jane'' ''Doe'' []"

text \<open>Two photos: one that matches in \<^const>\<open>doe_roster\<close>, one that does not.\<close>

definition doe_photos :: "photo list" where
  "doe_photos =
     [\<lparr>id_photo = ''a1'', name_photo = ''doe.jpg'', thumbnailLink = [], directLink = []\<rparr>,
      \<lparr>id_photo = ''b2'', name_photo = ''zzz.png'', thumbnailLink = [], directLink = []\<rparr>]"

text \<open>An entry with two short names.\<close>

definition al_li :: player_info where
  "al_li = person ''Al'' ''Li'' ''Al Li''"

text \<open>An entry of the script whose cell \<open>Full Name\<close> is empty, as are the cells of the parents.\<close>

definition nan_full_name :: csv_player where
  "nan_full_name =
     \<lparr>csv_full_name = PyNaN, csv_first_name = PyStr ''Jane'', csv_last_name = PyStr ''Doe'',
      csv_student_id = PyNaN, csv_parent1_first = PyNaN, csv_parent1_last = PyNaN,
      csv_parent2_first = PyNaN, csv_parent2_last = PyNaN\<rparr>"

text \<open>
  An excerpt of the tables of Unicode: U+0000 .. U+00FF as in the first section, U+0130,
  whose lower case is \<open>i\<close> followed by the combining dot U+0307, and the Greek letters
  U+0391 .. U+03CE. Every other code point is taken as unassigned.
\<close>

definition latin_greek :: unicode_data where
  "latin_greek =
     \<lparr>to_lower_full = (\<lambda>n.
        if n < 256 then [code (lower_char (char_of n))]
        else if n = 304 then [105, 775]
        else if 913 \<le> n \<and> n \<le> 939 \<and> n \<noteq> 930 then [n + 32]
        else [n]),
      is_cased = (\<lambda>n. (65 \<le> n \<and> n \<le> 90) \<or> (97 \<le> n \<and> n \<le> 122) \<or> n = 170 \<or> n = 181
        \<or> n = 186 \<or> (192 \<le> n \<and> n \<le> 214) \<or> (216 \<le> n \<and> n \<le> 246)
        \<or> (248 \<le> n \<and> n \<le> 255) \<or> n = 304 \<or> (913 \<le> n \<and> n \<le> 929)
        \<or> (931 \<le> n \<and> n \<le> 974)),
      is_case_ignorable = (\<lambda>n. n = 39 \<or> n = 46 \<or> n = 58 \<or> n = 94 \<or> n = 96 \<or> n = 168
        \<or> n = 173 \<or> n = 175 \<or> n = 180 \<or> n = 183 \<or> n = 184 \<or> n = 775),
      isalnum = (\<lambda>n. (n < 256 \<and> is_alnum (char_of n)) \<or> n = 304
        \<or> (913 \<le> n \<and> n \<le> 929) \<or> (931 \<le> n \<and> n \<le> 974)),
      isspace = (\<lambda>n. n < 256 \<and> is_space (char_of n))\<rparr>"

section \<open>Properties of the normalizer\<close>

lemma lower_char_not_upper: "\<not> is_upper (lower_char c)"
  by (auto simp: lower_char_def is_upper_def code_def)

lemma lower_char_id: "\<not> is_upper c \<Longrightarrow> lower_char c = c"
  by (simp add: lower_char_def)

lemma blank_facts:
  "is_space CHR '' ''" "is_sep CHR '' ''" "is_kept CHR '' ''" "\<not> is_upper CHR '' ''"
  "\<not> is_word CHR '' ''"
  by (simp_all add: is_space_def is_sep_def is_kept_def is_upper_def is_word_def is_alnum_def
      code_def)

lemma kept_cases: "is_kept c \<longleftrightarrow> is_word c \<or> is_sep c"
  by (auto simp: is_kept_def is_sep_def)

lemma collapse_hd_sep:
  "collapse xs \<noteq> [] \<Longrightarrow> is_sep (hd (collapse xs)) \<longleftrightarrow> is_sep (hd xs)"
  by (cases xs) (auto simp: blank_facts)

lemma collapse_Nil_iff: "collapse xs = [] \<longleftrightarrow> xs = []"
  by (cases xs) auto

lemma collapse_set: "set (collapse xs) \<subseteq> {c \<in> set xs. \<not> is_sep c} \<union> {CHR '' ''}"
proof (induction xs rule: collapse.induct)
  case 1
  then show ?case by simp
next
  case (2 c cs)
  show ?case
  proof (cases "is_sep c")
    case True
    with 2 have "set (collapse (dropWhile is_sep cs))
        \<subseteq> {c \<in> set (dropWhile is_sep cs). \<not> is_sep c} \<union> {CHR '' ''}" by simp
    moreover have "set (dropWhile is_sep cs) \<subseteq> set cs" by (rule set_dropWhileD [THEN subsetI])
    ultimately show ?thesis using True by auto
  next
    case False
    with 2 show ?thesis by auto
  qed
qed

lemma blanks_single_collapse: "blanks_single (collapse xs)"
proof (induction xs rule: collapse.induct)
  case 1
  then show ?case by simp
next
  case (2 c cs)
  show ?case
  proof (cases "is_sep c")
    case True
    let ?ys = "dropWhile is_sep cs"
    have "collapse ?ys = [] \<or> \<not> is_sep (hd (collapse ?ys))"
      using collapse_hd_sep [of ?ys] hd_dropWhile [of is_sep cs]
      by (auto simp: collapse_Nil_iff)
    with 2 True show ?thesis by simp
  next
    case False
    with 2 show ?thesis by simp
  qed
qed

lemma blanks_single_dropWhile: "blanks_single xs \<Longrightarrow> blanks_single (dropWhile P xs)"
  by (induction xs) auto

lemma rstrip_Nil: "rstrip [] = []"
  by (simp add: rstrip_def)

lemma rstrip_Cons:
  "rstrip (x # xs) = (if rstrip xs = [] \<and> is_space x then [] else x # rstrip xs)"
  by (auto simp: rstrip_def dropWhile_append)

lemma rstrip_hd: "rstrip xs \<noteq> [] \<Longrightarrow> hd (rstrip xs) = hd xs"
  by (cases xs) (auto simp: rstrip_Nil rstrip_Cons split: if_splits)

lemma rstrip_set: "set (rstrip xs) \<subseteq> set xs"
  by (induction xs) (auto simp: rstrip_Nil rstrip_Cons)

lemma blanks_inside_rstrip: "blanks_single xs \<Longrightarrow> blanks_inside (rstrip xs)"
proof (induction xs)
  case Nil
  then show ?case by (simp add: rstrip_Nil)
next
  case (Cons x xs)
  then have ih: "blanks_inside (rstrip xs)" by simp
  show ?case
  proof (cases "rstrip xs = [] \<and> is_space x")
    case True
    then show ?thesis by (simp add: rstrip_Cons)
  next
    case False
    have "x = CHR '' '' \<and> rstrip xs \<noteq> [] \<and> \<not> is_sep (hd (rstrip xs))" if s: "is_sep x"
    proof -
      from s Cons.prems have x: "x = CHR '' ''" and nxt: "xs = [] \<or> \<not> is_sep (hd xs)"
        by simp_all
      with False have ne: "rstrip xs \<noteq> []" by (auto simp: blank_facts)
      then have "xs \<noteq> []" by (auto simp: rstrip_Nil)
      with nxt ne x show ?thesis by (simp add: rstrip_hd)
    qed
    with False ih show ?thesis by (simp add: rstrip_Cons)
  qed
qed

lemma rstrip_id: "blanks_inside xs \<Longrightarrow> rstrip xs = xs"
  by (induction xs) (auto simp: rstrip_Nil rstrip_Cons is_sep_def)

lemma collapse_id: "blanks_inside xs \<Longrightarrow> collapse xs = xs"
proof (induction xs)
  case Nil
  then show ?case by simp
next
  case (Cons x xs)
  then show ?case
    by (cases xs) auto
qed

lemma strip_collapse_shape:
  "(strip (collapse xs) = [] \<or> \<not> is_sep (hd (strip (collapse xs))))
   \<and> blanks_inside (strip (collapse xs))"
proof -
  let ?y = "lstrip (collapse xs)"
  have single: "blanks_single ?y"
    by (simp add: lstrip_def blanks_single_dropWhile blanks_single_collapse)
  have "set ?y \<subseteq> set (collapse xs)"
    unfolding lstrip_def by (rule set_dropWhileD [THEN subsetI])
  with collapse_set [of xs] have seps: "\<forall>c \<in> set ?y. is_sep c \<longrightarrow> c = CHR '' ''"
    by auto
  have hd: "?y = [] \<or> \<not> is_sep (hd ?y)"
  proof (cases "?y = []")
    case True
    then show ?thesis by simp
  next
    case False
    then have "\<not> is_space (hd ?y)"
      unfolding lstrip_def by (rule hd_dropWhile)
    moreover from False have "hd ?y \<in> set ?y" by simp
    ultimately show ?thesis using seps by (auto simp: blank_facts)
  qed
  have "strip (collapse xs) = [] \<or> \<not> is_sep (hd (strip (collapse xs)))"
    using hd rstrip_hd [of ?y] by (auto simp: strip_def rstrip_Nil)
  with single show ?thesis
    by (simp add: strip_def blanks_inside_rstrip)
qed

lemma strip_collapse_set:
  "set (strip (collapse xs)) \<subseteq> {c \<in> set xs. \<not> is_sep c} \<union> {CHR '' ''}"
proof -
  have a: "set (lstrip (collapse xs)) \<subseteq> set (collapse xs)"
    unfolding lstrip_def by (rule set_dropWhileD [THEN subsetI])
  have b: "set (strip (collapse xs)) \<subseteq> set (lstrip (collapse xs))"
    unfolding strip_def by (rule rstrip_set)
  from a b collapse_set [of xs] show ?thesis by blast
qed

lemma normalized_normalize_name: "normalized (normalize_name s)"
proof (cases "s = []")
  case True
  then show ?thesis by (simp add: normalize_name_def normalized_def)
next
  case False
  let ?u = "remove_special (lower s)"
  have "(is_word c \<and> \<not> is_upper c) \<or> c = CHR '' ''" if "c \<in> set (strip (collapse ?u))" for c
  proof -
    from that strip_collapse_set [of ?u]
    have "c = CHR '' '' \<or> (c \<in> set ?u \<and> \<not> is_sep c)" by auto
    then show ?thesis
      by (auto simp: remove_special_def lower_def kept_cases lower_char_not_upper)
  qed
  with strip_collapse_shape [of ?u] False show ?thesis
    by (simp add: normalize_name_def normalized_def)
qed

lemma normalize_name_id:
  assumes "normalized t"
  shows "normalize_name t = t"
proof (cases "t = []")
  case True
  then show ?thesis by (simp add: normalize_name_def)
next
  case False
  from assms have chars: "\<forall>c \<in> set t. (is_word c \<and> \<not> is_upper c) \<or> c = CHR '' ''"
    and inside: "blanks_inside t" and hd: "\<not> is_sep (hd t)"
    using False by (simp_all add: normalized_def)
  have "lower_char c = c" if "c \<in> set t" for c
  proof -
    from chars that have "\<not> is_upper c" using blank_facts(4) by blast
    then show ?thesis by (rule lower_char_id)
  qed
  then have l: "lower t = t"
    unfolding lower_def by (intro map_idI)
  have "is_kept c" if "c \<in> set t" for c
  proof -
    from chars that have "is_word c \<or> c = CHR '' ''" by blast
    then show ?thesis
      using blank_facts(3) by (auto simp: is_kept_def)
  qed
  then have r: "remove_special t = t"
    unfolding remove_special_def by (simp add: filter_id_conv)
  have c: "collapse t = t" using inside by (rule collapse_id)
  have ls: "lstrip t = t"
    using hd False by (cases t) (auto simp: lstrip_def is_sep_def)
  have rs: "rstrip t = t" using inside by (rule rstrip_id)
  from False show ?thesis
    by (simp add: normalize_name_def l r c strip_def ls rs)
qed

lemma words_of_nonempty: "[] \<notin> set (words_of u)"
  by (induction u rule: words_of.induct) auto

lemma join_blank_Nil_iff: "[] \<notin> set ws \<Longrightarrow> join_blank ws = [] \<longleftrightarrow> ws = []"
  by (cases ws) auto

lemma collapse_word_append:
  "\<forall>c \<in> set w. \<not> is_sep c \<Longrightarrow> collapse (w @ rest) = w @ collapse rest"
  by (induction w) auto

lemma rstrip_append:
  "rstrip (xs @ ys) = (if rstrip ys = [] then rstrip xs else xs @ rstrip ys)"
  by (induction xs) (auto simp: rstrip_Nil rstrip_Cons)

lemma rstrip_word: "\<forall>c \<in> set w. \<not> is_space c \<Longrightarrow> rstrip w = w"
  by (induction w) (auto simp: rstrip_Nil rstrip_Cons)

lemma rstrip_blank:
  "rstrip (CHR '' '' # y) = (if rstrip y = [] then [] else CHR '' '' # rstrip y)"
  by (simp add: rstrip_Cons blank_facts)

lemma rstrip_word_blank:
  "\<forall>c \<in> set w. \<not> is_space c \<Longrightarrow>
   rstrip (w @ CHR '' '' # y) = (if rstrip y = [] then w else w @ CHR '' '' # rstrip y)"
  by (simp add: rstrip_append rstrip_blank rstrip_word)

lemma not_sep_not_space: "\<not> is_sep c \<Longrightarrow> \<not> is_space c"
  by (simp add: is_sep_def)

lemma lstrip_collapse_dropWhile:
  "lstrip (collapse (dropWhile is_sep cs)) = collapse (dropWhile is_sep cs)"
proof (cases "collapse (dropWhile is_sep cs) = []")
  case True
  then show ?thesis by (simp add: lstrip_def)
next
  case False
  then have ne: "dropWhile is_sep cs \<noteq> []" by (auto simp: collapse_Nil_iff)
  then have "\<not> is_sep (hd (dropWhile is_sep cs))" by (rule hd_dropWhile)
  with collapse_hd_sep [OF False] have "\<not> is_space (hd (collapse (dropWhile is_sep cs)))"
    by (simp add: not_sep_not_space)
  with False show ?thesis
    by (cases "collapse (dropWhile is_sep cs)") (auto simp: lstrip_def)
qed

lemma collapse_sep:
  "is_sep c \<Longrightarrow> collapse (c # cs) = CHR '' '' # collapse (dropWhile is_sep cs)"
  by simp

lemma strip_collapse_sep:
  "is_sep c \<Longrightarrow> strip (collapse (c # cs)) = rstrip (collapse (dropWhile is_sep cs))"
  using lstrip_collapse_dropWhile [of cs]
  by (simp add: strip_def lstrip_def blank_facts)

lemma strip_collapse_words: "strip (collapse u) = join_blank (words_of u)"
proof (induction u rule: words_of.induct)
  case 1
  then show ?case by (simp add: strip_def lstrip_def rstrip_Nil)
next
  case (2 c cs)
  show ?case
  proof (cases "is_sep c")
    case True
    with 2 have ih: "strip (collapse (dropWhile is_sep cs))
        = join_blank (words_of (dropWhile is_sep cs))"
      by simp
    have wo: "words_of (c # cs) = words_of (dropWhile is_sep cs)"
      using True by simp
    have "strip (collapse (c # cs)) = rstrip (collapse (dropWhile is_sep cs))"
      using True by (rule strip_collapse_sep)
    also have "\<dots> = strip (collapse (dropWhile is_sep cs))"
      by (simp add: strip_def lstrip_collapse_dropWhile)
    finally show ?thesis
      unfolding wo ih .
  next
    case False
    let ?w = "c # takeWhile (\<lambda>d. \<not> is_sep d) cs"
    let ?rest = "dropWhile (\<lambda>d. \<not> is_sep d) cs"
    have w: "\<forall>d \<in> set ?w. \<not> is_sep d"
      using False by (auto dest: set_takeWhileD)
    then have wsp: "\<forall>d \<in> set ?w. \<not> is_space d"
      using not_sep_not_space by blast
    have split: "c # cs = ?w @ ?rest" by simp
    have col: "collapse (c # cs) = ?w @ collapse ?rest"
      unfolding split using w by (rule collapse_word_append)
    have "lstrip (?w @ collapse ?rest) = ?w @ collapse ?rest"
      using False by (simp add: lstrip_def not_sep_not_space)
    then have lhs: "strip (collapse (c # cs)) = rstrip (?w @ collapse ?rest)"
      unfolding col strip_def by simp
    from 2 False have ih: "strip (collapse ?rest) = join_blank (words_of ?rest)" by simp
    have wo: "words_of (c # cs) = ?w # words_of ?rest" using False by simp
    show ?thesis
    proof (cases ?rest)
      case Nil
      have r: "collapse ?rest = []" "words_of ?rest = []"
        unfolding Nil by simp_all
      show ?thesis
        unfolding lhs wo r using rstrip_word [OF wsp] by simp
    next
      case (Cons s rest')
      then have "is_sep s" using hd_dropWhile [of "\<lambda>d. \<not> is_sep d" cs] by auto
      then have cr: "collapse ?rest = CHR '' '' # collapse (dropWhile is_sep rest')"
        and sr: "strip (collapse ?rest) = rstrip (collapse (dropWhile is_sep rest'))"
        unfolding Cons by (rule collapse_sep, rule strip_collapse_sep)
      let ?y = "collapse (dropWhile is_sep rest')"
      from ih sr have y: "rstrip ?y = join_blank (words_of ?rest)" by simp
      show ?thesis
      proof (cases "rstrip ?y = []")
        case True
        with y have "join_blank (words_of ?rest) = []" by simp
        then have "words_of ?rest = []"
          using join_blank_Nil_iff [OF words_of_nonempty, of ?rest] by blast
        with True show ?thesis
          unfolding lhs wo cr rstrip_word_blank [OF wsp] by simp
      next
        case False
        with y have "join_blank (words_of ?rest) \<noteq> []" by simp
        then have "words_of ?rest \<noteq> []" by auto
        with False y show ?thesis
          unfolding lhs wo cr rstrip_word_blank [OF wsp] by simp
      qed
    qed
  qed
qed

lemma is_kept_unfold:
  "is_kept = (\<lambda>c. is_alnum c \<or> c = CHR ''_'' \<or> is_space c \<or> c = CHR ''-'')"
  by (auto simp: is_kept_def is_word_def)

lemma normalize_name_spec: "normalize_name s = normalize_spec s"
  by (simp add: normalize_name_def normalize_spec_def remove_special_def strip_collapse_words
      is_kept_unfold lower_def)

lemma code_less: "code c < 256"
  by (simp add: code_def)

lemma char_of_code: "char_of (code c) = c"
  by (simp add: code_def)

lemma latin_greek_lower_stable:
  assumes "d \<in> set (to_lower_full latin_greek c)"
  shows "d \<noteq> 931 \<and> to_lower_full latin_greek d = [d]"
proof -
  have i: "code (lower_char (char_of (105::nat))) = 105"
    by (simp add: lower_char_def is_upper_def code_def)
  consider "c < 256" | "c = 304" | "913 \<le> c \<and> c \<le> 939 \<and> c \<noteq> 930"
    | "\<not> c < 256 \<and> c \<noteq> 304 \<and> \<not> (913 \<le> c \<and> c \<le> 939 \<and> c \<noteq> 930)"
    by linarith
  then show ?thesis
  proof cases
    case 1
    with assms have d: "d = code (lower_char (char_of c))"
      by (simp add: latin_greek_def)
    then have "d < 256" by (simp add: code_less)
    moreover have "lower_char (lower_char (char_of c)) = lower_char (char_of c)"
      by (simp add: lower_char_id lower_char_not_upper)
    ultimately show ?thesis
      by (simp add: latin_greek_def d char_of_code)
  next
    case 2
    with assms have "d = 105 \<or> d = 775" by (simp add: latin_greek_def)
    then show ?thesis using i by (auto simp: latin_greek_def)
  next
    case 3
    with assms have "d = c + 32" by (simp add: latin_greek_def)
    with 3 show ?thesis by (simp add: latin_greek_def)
  next
    case 4
    with assms have "d = c" by (auto simp: latin_greek_def split: if_splits)
    with 4 show ?thesis by (auto simp: latin_greek_def)
  qed
qed

lemma unicode_facts_latin_greek: "unicode_facts latin_greek"
proof -
  have sp: "is_space (char_of (32::nat))" "\<not> is_alnum (char_of (45::nat))"
    "\<not> is_space (char_of (95::nat))"
    by (simp_all add: is_space_def is_alnum_def code_def)
  have dis: "is_alnum c \<Longrightarrow> \<not> is_space c" for c
    by (auto simp: is_alnum_def is_space_def)
  have l32: "code (lower_char (char_of (32::nat))) = 32"
    by (simp add: lower_char_def is_upper_def code_def)
  have st: "\<forall>c. \<forall>d \<in> set (to_lower_full latin_greek c).
      d \<noteq> 931 \<and> to_lower_full latin_greek d = [d]"
    using latin_greek_lower_stable by blast
  have rest: "to_lower_full latin_greek 962 = [962]" "to_lower_full latin_greek 963 = [963]"
    "to_lower_full latin_greek 32 = [32]" "isspace latin_greek 32"
    "\<forall>c. isalnum latin_greek c \<longrightarrow> \<not> isspace latin_greek c"
    "\<not> isalnum latin_greek 45" "\<not> isspace latin_greek 95"
    using sp dis l32 by (auto simp: latin_greek_def)
  from st rest show ?thesis
    unfolding unicode_facts_def by blast
qed

lemma lower_from_stable:
  "\<forall>c \<in> set t. c \<noteq> 931 \<and> to_lower_full U c = [c] \<Longrightarrow> lower_from U seen t = t"
  by (induction t arbitrary: seen) auto

lemma lower_from_image:
  assumes "unicode_facts U" and "d \<in> set (lower_from U seen s)"
  shows "d \<noteq> 931 \<and> to_lower_full U d = [d]"
  using assms(2)
proof (induction s arbitrary: seen)
  case Nil
  then show ?case by simp
next
  case (Cons c cs)
  from Cons.prems consider "c = 931" "d = 962 \<or> d = 963"
    | "c \<noteq> 931" "d \<in> set (to_lower_full U c)"
    | "d \<in> set (lower_from U (seen @ [c]) cs)"
    by (auto split: if_splits)
  then show ?case
  proof cases
    case 1
    with assms(1) show ?thesis by (auto simp: unicode_facts_def)
  next
    case 2
    with assms(1) show ?thesis unfolding unicode_facts_def by blast
  next
    case 3
    then show ?thesis by (rule Cons.IH)
  qed
qed

lemma point_facts:
  assumes "unicode_facts U"
  shows "isspace U 32" "is_sep_point U 32" "is_kept_point U 32"
    "to_lower_full U 32 = [32]"
    "is_word_point U c \<Longrightarrow> \<not> is_sep_point U c"
    "is_kept_point U c \<longleftrightarrow> is_word_point U c \<or> is_sep_point U c"
    "is_sep_point U c \<Longrightarrow> c \<noteq> 32 \<Longrightarrow> \<not> is_word_point U c"
  using assms
  by (auto simp: unicode_facts_def is_sep_point_def is_kept_point_def is_word_point_def)

lemma collapse_points_hd_sep:
  "is_sep_point U 32 \<Longrightarrow> collapse_points U xs \<noteq> [] \<Longrightarrow>
   is_sep_point U (hd (collapse_points U xs)) \<longleftrightarrow> is_sep_point U (hd xs)"
  by (cases xs) auto

lemma collapse_points_Nil_iff: "collapse_points U xs = [] \<longleftrightarrow> xs = []"
  by (cases xs) auto

lemma collapse_points_set:
  "set (collapse_points U xs) \<subseteq> {c \<in> set xs. \<not> is_sep_point U c} \<union> {32}"
proof (induction U xs rule: collapse_points.induct)
  case (1 U)
  then show ?case by simp
next
  case (2 U c cs)
  show ?case
  proof (cases "is_sep_point U c")
    case True
    with 2 have "set (collapse_points U (dropWhile (is_sep_point U) cs))
        \<subseteq> {c \<in> set (dropWhile (is_sep_point U) cs). \<not> is_sep_point U c} \<union> {32}"
      by simp
    moreover have "set (dropWhile (is_sep_point U) cs) \<subseteq> set cs"
      by (rule set_dropWhileD [THEN subsetI])
    ultimately show ?thesis using True by auto
  next
    case False
    with 2 show ?thesis by auto
  qed
qed

lemma point_blanks_single_collapse:
  assumes "is_sep_point U 32"
  shows "point_blanks_single U (collapse_points U xs)"
  using assms
proof (induction U xs rule: collapse_points.induct)
  case (1 U)
  then show ?case by simp
next
  case (2 U c cs)
  show ?case
  proof (cases "is_sep_point U c")
    case True
    let ?ys = "dropWhile (is_sep_point U) cs"
    have "collapse_points U ?ys = [] \<or> \<not> is_sep_point U (hd (collapse_points U ?ys))"
      using collapse_points_hd_sep [OF "2.prems", of ?ys] hd_dropWhile [of "is_sep_point U" cs]
      by (auto simp: collapse_points_Nil_iff)
    with 2 True show ?thesis by simp
  next
    case False
    with 2 show ?thesis by simp
  qed
qed

lemma point_blanks_single_dropWhile:
  "point_blanks_single U xs \<Longrightarrow> point_blanks_single U (dropWhile P xs)"
  by (induction xs) auto

lemma rstrip_points_Nil: "rstrip_points U [] = []"
  by (simp add: rstrip_points_def)

lemma rstrip_points_Cons:
  "rstrip_points U (x # xs)
    = (if rstrip_points U xs = [] \<and> isspace U x then [] else x # rstrip_points U xs)"
  by (auto simp: rstrip_points_def dropWhile_append)

lemma rstrip_points_hd: "rstrip_points U xs \<noteq> [] \<Longrightarrow> hd (rstrip_points U xs) = hd xs"
  by (cases xs) (auto simp: rstrip_points_Nil rstrip_points_Cons split: if_splits)

lemma rstrip_points_set: "set (rstrip_points U xs) \<subseteq> set xs"
  by (induction xs) (auto simp: rstrip_points_Nil rstrip_points_Cons)

lemma point_blanks_inside_rstrip:
  assumes "isspace U 32"
  shows "point_blanks_single U xs \<Longrightarrow> point_blanks_inside U (rstrip_points U xs)"
proof (induction xs)
  case Nil
  then show ?case by (simp add: rstrip_points_Nil)
next
  case (Cons x xs)
  then have ih: "point_blanks_inside U (rstrip_points U xs)" by simp
  show ?case
  proof (cases "rstrip_points U xs = [] \<and> isspace U x")
    case True
    then show ?thesis by (simp add: rstrip_points_Cons)
  next
    case False
    have "x = 32 \<and> rstrip_points U xs \<noteq> [] \<and> \<not> is_sep_point U (hd (rstrip_points U xs))"
      if s: "is_sep_point U x"
    proof -
      from s Cons.prems have x: "x = 32" and nxt: "xs = [] \<or> \<not> is_sep_point U (hd xs)"
        by simp_all
      with False assms have ne: "rstrip_points U xs \<noteq> []" by auto
      then have "xs \<noteq> []" by (auto simp: rstrip_points_Nil)
      with nxt ne x show ?thesis by (simp add: rstrip_points_hd)
    qed
    with False ih show ?thesis by (simp add: rstrip_points_Cons)
  qed
qed

lemma rstrip_points_id: "point_blanks_inside U xs \<Longrightarrow> rstrip_points U xs = xs"
  by (induction xs) (auto simp: rstrip_points_Nil rstrip_points_Cons is_sep_point_def)

lemma collapse_points_id: "point_blanks_inside U xs \<Longrightarrow> collapse_points U xs = xs"
proof (induction xs)
  case Nil
  then show ?case by simp
next
  case (Cons x xs)
  then show ?case
    by (cases xs) auto
qed

lemma strip_points_rstrip:
  "strip_points U s = rstrip_points U (dropWhile (isspace U) s)"
  by (simp add: strip_points_def rstrip_points_def)

lemma strip_collapse_points_shape:
  assumes "unicode_facts U"
  shows "(strip_points U (collapse_points U xs) = []
      \<or> \<not> is_sep_point U (hd (strip_points U (collapse_points U xs))))
   \<and> point_blanks_inside U (strip_points U (collapse_points U xs))"
proof -
  let ?y = "dropWhile (isspace U) (collapse_points U xs)"
  note pf = point_facts [OF assms]
  have single: "point_blanks_single U ?y"
    by (simp add: point_blanks_single_dropWhile point_blanks_single_collapse pf(2))
  have "set ?y \<subseteq> set (collapse_points U xs)"
    by (rule set_dropWhileD [THEN subsetI])
  with collapse_points_set [of U xs] have seps: "\<forall>c \<in> set ?y. is_sep_point U c \<longrightarrow> c = 32"
    by auto
  have hd: "?y = [] \<or> \<not> is_sep_point U (hd ?y)"
  proof (cases "?y = []")
    case True
    then show ?thesis by simp
  next
    case False
    then have "\<not> isspace U (hd ?y)"
      by (rule hd_dropWhile)
    moreover from False have "hd ?y \<in> set ?y" by simp
    ultimately show ?thesis using seps pf(1) by auto
  qed
  have "rstrip_points U ?y = [] \<or> \<not> is_sep_point U (hd (rstrip_points U ?y))"
  proof (cases "rstrip_points U ?y = []")
    case True
    then show ?thesis ..
  next
    case False
    then have "hd (rstrip_points U ?y) = hd ?y" by (rule rstrip_points_hd)
    moreover from False have "?y \<noteq> []" using rstrip_points_Nil [of U] by metis
    ultimately show ?thesis using hd by metis
  qed
  then have "strip_points U (collapse_points U xs) = []
      \<or> \<not> is_sep_point U (hd (strip_points U (collapse_points U xs)))"
    unfolding strip_points_rstrip .
  with single show ?thesis
    by (simp add: strip_points_rstrip point_blanks_inside_rstrip [OF pf(1)])
qed

lemma strip_collapse_points_set:
  "set (strip_points U (collapse_points U xs)) \<subseteq> {c \<in> set xs. \<not> is_sep_point U c} \<union> {32}"
proof -
  have a: "set (dropWhile (isspace U) (collapse_points U xs)) \<subseteq> set (collapse_points U xs)"
    by (rule set_dropWhileD [THEN subsetI])
  have b: "set (strip_points U (collapse_points U xs))
      \<subseteq> set (dropWhile (isspace U) (collapse_points U xs))"
    unfolding strip_points_rstrip by (rule rstrip_points_set)
  from a b collapse_points_set [of U xs] show ?thesis by blast
qed

lemma normalized_normalize_points:
  assumes "unicode_facts U"
  shows "normalized_points U (normalize_points U s)"
proof (cases "s = []")
  case True
  then show ?thesis by (simp add: normalize_points_def normalized_points_def)
next
  case False
  let ?u = "filter (is_kept_point U) (lower_points U s)"
  note pf = point_facts [OF assms]
  have "(is_word_point U c \<and> c \<noteq> 931 \<and> to_lower_full U c = [c]) \<or> c = 32"
    if "c \<in> set (strip_points U (collapse_points U ?u))" for c
  proof -
    from that strip_collapse_points_set [of U ?u]
    have "c = 32 \<or> (c \<in> set ?u \<and> \<not> is_sep_point U c)" by auto
    then show ?thesis
    proof
      assume "c = 32"
      then show ?thesis by simp
    next
      assume c: "c \<in> set ?u \<and> \<not> is_sep_point U c"
      then have "is_word_point U c" using pf(6) [of c] by (auto simp: filter_set)
      moreover from c have "c \<in> set (lower_from U [] s)" by (simp add: lower_points_def)
      then have "c \<noteq> 931 \<and> to_lower_full U c = [c]"
        by (rule lower_from_image [OF assms])
      ultimately show ?thesis by simp
    qed
  qed
  with strip_collapse_points_shape [OF assms, of ?u] False show ?thesis
    by (simp add: normalize_points_def normalized_points_def)
qed

lemma normalize_points_id:
  assumes "unicode_facts U" and "normalized_points U t"
  shows "normalize_points U t = t"
proof (cases "t = []")
  case True
  then show ?thesis by (simp add: normalize_points_def)
next
  case False
  note pf = point_facts [OF assms(1)]
  from assms(2) have chars: "\<forall>c \<in> set t.
      (is_word_point U c \<and> c \<noteq> 931 \<and> to_lower_full U c = [c]) \<or> c = 32"
    and inside: "point_blanks_inside U t" and hd: "\<not> is_sep_point U (hd t)"
    using False by (simp_all add: normalized_points_def)
  have "c \<noteq> 931 \<and> to_lower_full U c = [c]" if "c \<in> set t" for c
    using chars that pf(4) by auto
  then have l: "lower_points U t = t"
    unfolding lower_points_def by (intro lower_from_stable) blast
  have "is_kept_point U c" if "c \<in> set t" for c
    using chars that pf(3) by (auto simp: is_kept_point_def)
  then have r: "filter (is_kept_point U) t = t"
    by (simp add: filter_id_conv)
  have c: "collapse_points U t = t" using inside by (rule collapse_points_id)
  have ls: "dropWhile (isspace U) t = t"
    using hd False by (cases t) (auto simp: is_sep_point_def)
  have rs: "rstrip_points U t = t" using inside by (rule rstrip_points_id)
  from False show ?thesis
    by (simp add: normalize_points_def l r c strip_points_rstrip ls rs)
qed

lemma normalize_points_idempotent:
  "unicode_facts U \<Longrightarrow> normalize_points U (normalize_points U s) = normalize_points U s"
  by (rule normalize_points_id) (simp_all add: normalized_normalize_points)

lemma code_eq_iff: "code c = code d \<longleftrightarrow> c = d"
  by (simp add: code_def)

lemma code_literals: "code CHR '' '' = 32" "code CHR ''-'' = 45" "code CHR ''_'' = 95"
  by (simp_all add: code_def)

lemma latin_greek_code:
  "to_lower_full latin_greek (code c) = [code (lower_char c)]"
  "isalnum latin_greek (code c) = is_alnum c"
  "isspace latin_greek (code c) = is_space c"
  "is_word_point latin_greek (code c) = is_word c"
  "is_sep_point latin_greek (code c) = is_sep c"
  "is_kept_point latin_greek (code c) = is_kept c"
  using code_less [of c] code_eq_iff [of c "CHR ''-''"] code_eq_iff [of c "CHR ''_''"]
  by (simp_all add: latin_greek_def char_of_code is_word_point_def is_sep_point_def
      is_kept_point_def is_word_def is_sep_def is_kept_def code_literals)

lemma lower_from_code: "lower_from latin_greek seen (map code s) = map code (lower s)"
proof (induction s arbitrary: seen)
  case Nil
  then show ?case by (simp add: lower_def)
next
  case (Cons c cs)
  have "code c \<noteq> 931" using code_less [of c] by simp
  with Cons show ?case
    by (simp add: lower_def latin_greek_code)
qed

lemma filter_kept_code:
  "filter (is_kept_point latin_greek) (map code s) = map code (remove_special s)"
  by (simp add: remove_special_def filter_map o_def latin_greek_code)

lemma dropWhile_sep_code:
  "dropWhile (is_sep_point latin_greek) (map code s) = map code (dropWhile is_sep s)"
  by (simp add: dropWhile_map o_def latin_greek_code)

lemma dropWhile_space_code:
  "dropWhile (isspace latin_greek) (map code s) = map code (dropWhile is_space s)"
  by (simp add: dropWhile_map o_def latin_greek_code)

lemma collapse_points_code:
  "collapse_points latin_greek (map code s) = map code (collapse s)"
proof (induction s rule: collapse.induct)
  case 1
  then show ?case by simp
next
  case (2 c cs)
  then show ?case
    by (simp add: latin_greek_code dropWhile_sep_code code_literals)
qed

lemma strip_points_code: "strip_points latin_greek (map code s) = map code (strip s)"
proof -
  have "dropWhile (isspace latin_greek) (rev (map code (dropWhile is_space s)))
      = map code (dropWhile is_space (rev (dropWhile is_space s)))"
    using dropWhile_space_code [of "rev (dropWhile is_space s)"] by (simp add: rev_map)
  then show ?thesis
    by (simp add: strip_points_def strip_def lstrip_def rstrip_def dropWhile_space_code rev_map)
qed

lemma normalize_points_code:
  "normalize_points latin_greek (map code s) = map code (normalize_name s)"
  by (simp add: normalize_points_def normalize_name_def lower_points_def lower_from_code
      filter_kept_code collapse_points_code strip_points_code)

lemma sigma_eval:
  "normalize_points latin_greek [304, 32, 927, 931, 927, 931] = [105, 32, 959, 963, 959, 962]"
  by code_simp

text \<open>
  Claim C9. The normalizer is idempotent: normalizing a normalized string returns it
  unchanged. This holds for every string over U+0000 .. U+00FF, and for every string of
  code points whatever, given the tables of Unicode with the properties stated in
  \<^const>\<open>unicode_facts\<close>; strings that \<open>str.lower()\<close> lengthens and strings with a
  capital sigma are among them.
\<close>

theorem normalize_name_idempotent:
  "normalize_name (normalize_name t) = normalize_name t
   \<and> (unicode_facts U \<longrightarrow>
        normalize_points U (normalize_points U s) = normalize_points U s)"
  using normalize_name_id [OF normalized_normalize_name] normalize_points_idempotent
  by blast

theorem normalize_name_idempotent_witness:
  "normalize_name ''  Ann-Marie   O.Neil_2 '' = ''ann marie oneil_2''
   \<and> normalize_name ''ann marie oneil_2'' = ''ann marie oneil_2''
   \<and> unicode_facts latin_greek
   \<and> lower_points latin_greek [304, 32, 927, 931, 927, 931]
       = [105, 775, 32, 959, 963, 959, 962]
   \<and> normalize_points latin_greek [304, 32, 927, 931, 927, 931]
       = [105, 32, 959, 963, 959, 962]
   \<and> normalize_points latin_greek [105, 32, 959, 963, 959, 962]
       = [105, 32, 959, 963, 959, 962]"
proof -
  have a: "normalize_name ''  Ann-Marie   O.Neil_2 '' = ''ann marie oneil_2''"
    by code_simp
  have l: "lower_points latin_greek [304, 32, 927, 931, 927, 931]
       = [105, 775, 32, 959, 963, 959, 962]"
    by code_simp
  from normalize_name_idempotent [of "''  Ann-Marie   O.Neil_2 ''" latin_greek
      "[304, 32, 927, 931, 927, 931]"]
    unicode_facts_latin_greek sigma_eval l a
  show ?thesis by simp
qed

text \<open>
  Claim C1, as the code has it. The normalizer lower-cases its input, removes every
  character that is not a letter, a digit, an underscore, whitespace or a hyphen,
  replaces each run of whitespace and hyphens by one blank and trims the result: it is
  equal to the definition that says so. For \<open>jane-doe\<close> and \<open>Jane  Doe\<close> it returns
  \<open>jane doe\<close>; for \<open>Jane_Doe\<close> it returns \<open>jane_doe\<close>, since the underscore is a word
  character of the pattern and is kept.
\<close>

theorem normalize_name_keeps_underscore:
  "normalize_name s = normalize_spec s
   \<and> normalize_name ''jane-doe'' = ''jane doe''
   \<and> normalize_name ''Jane  Doe'' = ''jane doe''
   \<and> normalize_name ''Jane_Doe'' = ''jane_doe''"
proof -
  have "normalize_name ''jane-doe'' = ''jane doe''"
    "normalize_name ''Jane  Doe'' = ''jane doe''"
    "normalize_name ''Jane_Doe'' = ''jane_doe''"
    by code_simp+
  then show ?thesis
    by (simp add: normalize_name_spec)
qed

theorem normalize_name_keeps_underscore_witness:
  "normalize_spec ''  Ann-Marie   O.Neil_2 '' = ''ann marie oneil_2''
   \<and> normalize_name ''Jane_Doe'' = ''jane_doe''"
proof -
  have "normalize_name ''  Ann-Marie   O.Neil_2 '' = ''ann marie oneil_2''"
    by code_simp
  with normalize_name_keeps_underscore [of "''  Ann-Marie   O.Neil_2 ''"] show ?thesis
    by simp
qed

text \<open>
  Claim C1 as it is stated fails: the underscore of \<open>Jane_Doe\<close> is not removed, and
  the result differs from that of \<open>jane-doe\<close>.
\<close>

theorem normalize_name_underscore_counterexample:
  "normalize_name ''Jane_Doe'' \<noteq> normalize_name ''jane-doe''
   \<and> CHR ''_'' \<in> set (normalize_name ''Jane_Doe'')"
  by code_simp

section \<open>Properties of the matcher\<close>

lemma partial_matches_cases:
  "partial_matches p key vs = []
   \<or> (\<exists>v \<in> set vs. partial_matches p key vs =
        [\<lparr>player = p, confidence = ''medium'', match_type = ''partial'', matched_variation = v\<rparr>]
        \<and> 2 < length v \<and> (str_in v key \<or> str_in key v))"
  by (induction vs) auto

lemma partial_matches_find:
  "partial_matches p key vs =
     (case List.find (\<lambda>v. 2 < length v \<and> (str_in v key \<or> str_in key v)) vs of
        None \<Rightarrow> []
      | Some v \<Rightarrow> [\<lparr>player = p, confidence = ''medium'', match_type = ''partial'',
                    matched_variation = v\<rparr>])"
  by (induction vs) auto

lemma player_matches_length: "length (player_matches iter key p) \<le> 1"
  using partial_matches_cases [of p key "iter (generate_name_variations iter p)"]
  by (auto simp: player_matches_def Let_def)

lemma player_matches_player: "c \<in> set (player_matches iter key p) \<Longrightarrow> player c = p"
  using partial_matches_cases [of p key "iter (generate_name_variations iter p)"]
  by (auto simp: player_matches_def Let_def split: if_splits)

lemma player_matches_tagged: "c \<in> set (player_matches iter key p) \<Longrightarrow> well_tagged c"
  using partial_matches_cases [of p key "iter (generate_name_variations iter p)"]
  by (auto simp: player_matches_def Let_def well_tagged_def split: if_splits)

lemma collect_matches_concat:
  "collect_matches iter key ps = concat (map (player_matches iter key) ps)"
  by (induction ps) auto

lemma collect_matches_tagged: "c \<in> set (collect_matches iter key ps) \<Longrightarrow> well_tagged c"
  by (induction ps) (auto dest: player_matches_tagged)

lemma well_tagged_rank: "well_tagged c \<Longrightarrow> confidence_order (confidence c) = Some (rank c)"
  by (auto simp: well_tagged_def rank_def confidence_order_def)

lemma sort_keys_tagged:
  "\<forall>c \<in> set xs. well_tagged c \<Longrightarrow> sort_keys xs = Inr (map (\<lambda>c. (rank c, c)) xs)"
  by (induction xs) (auto simp: well_tagged_rank)

lemma insort_key_fst_map:
  "insort_key fst (f x, x) (map (\<lambda>c. (f c, c)) ys) = map (\<lambda>c. (f c, c)) (insort_key f x ys)"
  by (induction ys) auto

lemma sort_key_fst_map:
  "sort_key fst (map (\<lambda>c. (f c, c)) xs) = map (\<lambda>c. (f c, c)) (sort_key f xs)"
  by (induction xs) (auto simp: insort_key_fst_map)

lemma sort_reverse_decorated:
  "sort_reverse (map (\<lambda>c. (f c, c)) xs) = rev (sort_key f (rev xs))"
proof -
  have "sort_key fst (rev (map (\<lambda>c. (f c, c)) xs)) = map (\<lambda>c. (f c, c)) (sort_key f (rev xs))"
    using sort_key_fst_map [of f "rev xs"] by (simp add: rev_map)
  then show ?thesis
    by (simp add: sort_reverse_def rev_map [symmetric] o_def)
qed

lemma match_photo_to_player_sorted:
  "match_photo_to_player iter photo_name players =
     Inr (rev (sort_key rank (rev (collect_matches iter (normalize_name (stem photo_name)) players))))"
  by (simp add: match_photo_to_player_def Let_def sort_keys_tagged collect_matches_tagged
      sort_reverse_decorated)

lemma well_tagged_rank_cases:
  "well_tagged c \<Longrightarrow> rank c = 3 \<and> confidence c = ''high'' \<or> rank c = 2 \<and> confidence c = ''medium''"
  by (auto simp: well_tagged_def rank_def confidence_order_def)

lemma filter_confidence_rank:
  assumes "\<forall>c \<in> set xs. well_tagged c"
  shows "filter (\<lambda>c. confidence c = k) xs =
    (if k = ''high'' then filter (\<lambda>c. rank c = 3) xs
     else if k = ''medium'' then filter (\<lambda>c. rank c = 2) xs else [])"
proof -
  have "filter (\<lambda>c. confidence c = ''high'') xs = filter (\<lambda>c. rank c = 3) xs"
    using assms by (intro filter_cong) (auto dest!: well_tagged_rank_cases)
  moreover have "filter (\<lambda>c. confidence c = ''medium'') xs = filter (\<lambda>c. rank c = 2) xs"
    using assms by (intro filter_cong) (auto dest!: well_tagged_rank_cases)
  moreover have "k \<noteq> ''high'' \<Longrightarrow> k \<noteq> ''medium'' \<Longrightarrow> filter (\<lambda>c. confidence c = k) xs = []"
    using assms by (auto simp: filter_empty_conv dest!: well_tagged_rank_cases)
  ultimately show ?thesis by simp
qed

lemma match_result:
  "\<exists>r. match_photo_to_player iter photo_name players = Inr r
     \<and> mset r = mset (collect_matches iter (normalize_name (stem photo_name)) players)
     \<and> sorted (rev (map rank r))
     \<and> (\<forall>k. filter (\<lambda>c. confidence c = k) r
          = filter (\<lambda>c. confidence c = k) (collect_matches iter (normalize_name (stem photo_name)) players))"
proof -
  let ?cs = "collect_matches iter (normalize_name (stem photo_name)) players"
  let ?r = "rev (sort_key rank (rev ?cs))"
  have tagged: "\<forall>c \<in> set ?cs. well_tagged c" by (simp add: collect_matches_tagged)
  then have tagged': "\<forall>c \<in> set ?r. well_tagged c" by simp
  have srt: "sorted (rev (map rank ?r))" by (simp add: rev_map)
  have eq: "filter (\<lambda>c. rank c = n) ?r = filter (\<lambda>c. rank c = n) ?cs" for n
    by (simp add: rev_filter [symmetric] sort_key_stable)
  have stab: "filter (\<lambda>c. confidence c = k) ?r = filter (\<lambda>c. confidence c = k) ?cs" for k
    unfolding filter_confidence_rank [OF tagged] filter_confidence_rank [OF tagged'] eq ..
  have ms: "mset ?r = mset ?cs" by simp
  show ?thesis
    using srt stab ms unfolding match_photo_to_player_sorted by blast
qed

lemma match_result_set:
  "match_photo_to_player iter photo_name players = Inr r \<Longrightarrow>
   set r = set (collect_matches iter (normalize_name (stem photo_name)) players)"
  using match_result [of iter photo_name players] by (auto dest: mset_eq_setD)

lemma player_matches_shape:
  "player_matches iter key p = [] \<or> (\<exists>c. player_matches iter key p = [c] \<and> player c = p)"
proof (cases "player_matches iter key p")
  case Nil
  then show ?thesis by simp
next
  case (Cons c cs)
  with player_matches_length [of iter key p] have "cs = []" by simp
  with Cons player_matches_player [of c iter key p] show ?thesis by simp
qed

lemma collect_matches_players:
  "map player (filter (\<lambda>c. confidence c = k) (collect_matches iter key ps))
   = filter (\<lambda>p. \<exists>c \<in> set (player_matches iter key p). confidence c = k) ps"
proof (induction ps)
  case Nil
  then show ?case by simp
next
  case (Cons p ps)
  from player_matches_shape [of iter key p] Cons show ?case by auto
qed

lemma collect_matches_count:
  "length (filter (\<lambda>c. player c = p) (collect_matches iter key ps))
   = (if player_matches iter key p = [] then 0 else count_list ps p)"
proof (induction ps)
  case Nil
  then show ?case by simp
next
  case (Cons q ps)
  from player_matches_shape [of iter key q] Cons show ?case by auto
qed

lemma collect_matches_member:
  "c \<in> set (collect_matches iter key ps) \<Longrightarrow> c \<in> set (player_matches iter key (player c))"
  by (induction ps) (auto dest: player_matches_player)

lemma well_tagged_tags:
  "well_tagged c \<Longrightarrow> (match_type c = ''exact'' \<or> match_type c = ''partial'')
          \<and> (match_type c = ''exact'' \<longrightarrow> confidence c = ''high'')
          \<and> (match_type c = ''partial'' \<longrightarrow> confidence c = ''medium'')
          \<and> confidence c \<noteq> ''low''"
  by (auto simp: well_tagged_def)

lemma doe_eval: "match_photo_to_player remdups ''doe.jpg'' doe_roster = Inr doe_result"
  by code_simp

lemma match_result_count:
  assumes "match_photo_to_player iter photo_name players = Inr r"
  shows "length (filter P r)
    = length (filter P (collect_matches iter (normalize_name (stem photo_name)) players))"
proof -
  from assms match_result [of iter photo_name players]
  have "mset r = mset (collect_matches iter (normalize_name (stem photo_name)) players)"
    by auto
  then have "mset (filter P r)
      = mset (filter P (collect_matches iter (normalize_name (stem photo_name)) players))"
    by simp
  then show ?thesis by (rule mset_eq_length)
qed

lemma generate_name_variations_set:
  "set_iteration iter \<Longrightarrow>
   set (generate_name_variations iter p)
     = set (filter (\<lambda>n. n \<noteq> []) (map normalize_name (variations p)))"
  by (simp add: set_iteration_def generate_name_variations_def)

lemma set_iteration_remdups: "set_iteration remdups"
  by (simp add: set_iteration_def)

lemma partial_matches_Nil_iff:
  "partial_matches p key vs = []
   \<longleftrightarrow> (\<forall>v \<in> set vs. \<not> (2 < length v \<and> (str_in v key \<or> str_in key v)))"
  by (induction vs) auto

lemma match_single:
  "match_photo_to_player iter photo_name [p]
     = Inr (player_matches iter (normalize_name (stem photo_name)) p)"
proof -
  from player_matches_shape [of iter "normalize_name (stem photo_name)" p]
  show ?thesis
    by (auto simp: match_photo_to_player_sorted)
qed

lemma jane_doe_key: "normalize_name (stem ''Jane_Doe.jpg'') = ''jane_doe''"
  by code_simp

lemma jane_doe_variation:
  "''jane_doe'' \<in> set (filter (\<lambda>n. n \<noteq> []) (map normalize_name (variations jane_doe)))"
  by code_simp

lemma team_photo_key:
  "normalize_name (stem ''team_photo_janedoe_2025.png'') = ''team_photo_janedoe_2025''"
  by code_simp

lemma jane_only_variations:
  "filter (\<lambda>n. n \<noteq> []) (map normalize_name (variations jane_only))
    = [''jane doe'', ''doe jane'', ''jane_doe'', ''doe_jane'', ''janedoe'', ''doejane'',
       ''jane doe'', ''doe jane'', ''jane'', ''doe'']"
  by code_simp

lemma janedoe_inside: "str_in ''janedoe'' ''team_photo_janedoe_2025''"
  by code_simp

lemma jane_only_eval:
  "match_photo_to_player remdups ''team_photo_janedoe_2025.png'' [jane_only]
      = Inr [\<lparr>player = jane_only, confidence = ''medium'', match_type = ''partial'',
              matched_variation = ''janedoe''\<rparr>]"
  by code_simp

lemma create_photo_mappings_map:
  "create_photo_mappings iter photos players =
     Inr (map (\<lambda>ph. photo_mapping ph (rev (sort_key rank (rev
       (collect_matches iter (normalize_name (stem (name_photo ph))) players))))) photos)"
  by (induction photos) (simp_all add: match_photo_to_player_sorted)

lemma photo_mapping_empty:
  "m_matched_player (photo_mapping ph []) = Some []
   \<and> m_confidence (photo_mapping ph []) = ''medium''
   \<and> m_match_type (photo_mapping ph []) = ''no_match''
   \<and> m_alternative_matches (photo_mapping ph []) = []"
  by (simp add: photo_mapping_def)

lemma photo_mapping_best:
  assumes "r \<noteq> []"
  shows "m_matched_player (photo_mapping ph r) = full_name (player (r ! 0))
   \<and> m_confidence (photo_mapping ph r) = confidence (r ! 0)
   \<and> m_match_type (photo_mapping ph r) = match_type (r ! 0)
   \<and> length (m_alternative_matches (photo_mapping ph r)) = min 2 (length r - 1)
   \<and> (\<forall>j < length (m_alternative_matches (photo_mapping ph r)).
         m_alternative_matches (photo_mapping ph r) ! j = alternative (r ! (j + 1)))"
proof -
  from assms obtain b rest where r: "r = b # rest" by (cases r) auto
  have alts: "m_alternative_matches (photo_mapping ph r) = map alternative (take 2 rest)"
    by (simp add: photo_mapping_def r)
  show ?thesis
    unfolding alts by (simp add: photo_mapping_def r)
qed

lemma zzz_eval: "match_photo_to_player remdups ''zzz.png'' doe_roster = Inr []"
  by code_simp

lemma partial_matches_long_only:
  "partial_matches p key vs = partial_matches p key (filter (\<lambda>v. 2 < length v) vs)"
  by (induction vs) auto

lemma partial_matches_member:
  "c \<in> set (partial_matches p key vs) \<Longrightarrow>
   matched_variation c \<in> set vs \<and> 2 < length (matched_variation c)
   \<and> (str_in (matched_variation c) key \<or> str_in key (matched_variation c))"
  by (induction vs) (auto split: if_splits)

lemma player_matches_partial:
  "c \<in> set (player_matches iter key p) \<Longrightarrow> match_type c = ''partial''
   \<Longrightarrow> c \<in> set (partial_matches p key (iter (generate_name_variations iter p)))"
  by (auto simp: player_matches_def Let_def split: if_splits)

lemma al_li_eval: "match_photo_to_player remdups ''gallery.jpg'' [al_li] = Inr []"
  by code_simp

lemma initials_eval: "match_photo_to_player remdups ''jo_smith.jpg'' [initials_only] = Inr []"
  by code_simp

section \<open>Properties of the matcher of the script\<close>

lemma csv_full_variations_cases:
  "csv_full_variations full =
     (if full = PyNaN then Inl (AttributeError ''replace'')
      else Inr (if py_bool full
        then [full, PyStr (replace_char CHR '' '' CHR ''_'' (py_format full)),
              PyStr (replace_char CHR '' '' CHR ''.'' (py_format full)),
              PyStr (replace_char CHR '' '' CHR ''-'' (py_format full))]
        else []))"
  by (cases full) (simp_all add: csv_full_variations_def)

lemma csv_partial_matches_tagged:
  "c \<in> set (csv_partial_matches p key vs) \<Longrightarrow> csv_well_tagged c"
  by (induction vs) (auto simp: csv_well_tagged_def split: if_splits)

lemma csv_player_matches_cases:
  "(csv_full_name p = PyNaN \<longrightarrow>
      csv_player_matches iter_v iter key p = Inl (AttributeError ''replace''))
   \<and> (csv_full_name p \<noteq> PyNaN \<longrightarrow>
      (\<exists>ms. csv_player_matches iter_v iter key p = Inr ms \<and> (\<forall>c \<in> set ms. csv_well_tagged c)))"
  by (auto simp: csv_player_matches_def csv_generate_name_variations_def csv_variations_def
      csv_full_variations_cases csv_well_tagged_def dest: csv_partial_matches_tagged)

lemma csv_collect_matches_cases:
  "(if \<exists>p \<in> set ps. csv_full_name p = PyNaN
    then csv_collect_matches iter_v iter key ps = Inl (AttributeError ''replace'')
    else \<exists>ms. csv_collect_matches iter_v iter key ps = Inr ms
           \<and> (\<forall>c \<in> set ms. csv_well_tagged c))"
proof (induction ps)
  case Nil
  then show ?case by simp
next
  case (Cons p ps)
  show ?case
  proof (cases "csv_full_name p = PyNaN")
    case True
    with csv_player_matches_cases [of p iter_v iter key] show ?thesis by simp
  next
    case False
    with csv_player_matches_cases [of p iter_v iter key]
    obtain ms where ms: "csv_player_matches iter_v iter key p = Inr ms"
      "\<forall>c \<in> set ms. csv_well_tagged c"
      by blast
    show ?thesis
    proof (cases "\<exists>q \<in> set ps. csv_full_name q = PyNaN")
      case True
      with Cons have "csv_collect_matches iter_v iter key ps = Inl (AttributeError ''replace'')"
        by simp
      with True ms show ?thesis by simp
    next
      case no: False
      with Cons obtain rest where rest: "csv_collect_matches iter_v iter key ps = Inr rest"
        "\<forall>c \<in> set rest. csv_well_tagged c"
        by auto
      with no False ms show ?thesis by auto
    qed
  qed
qed

lemma csv_sort_keys_tagged:
  "\<forall>c \<in> set xs. csv_well_tagged c \<Longrightarrow> \<exists>ks. csv_sort_keys xs = Inr ks"
  by (induction xs) (auto simp: csv_well_tagged_def confidence_order_def)

lemma as_pyval_simps:
  "py_bool (as_pyval x) = truthy x" "py_format (as_pyval x) = py_str x"
  "truthy x \<Longrightarrow> as_pyval x = PyStr (py_str x)" "as_pyval x \<noteq> PyNaN"
  by (cases x; simp)+

lemma csv_normalize_name_str: "csv_normalize_name (PyStr s) = normalize_name s"
  by (simp add: csv_normalize_name_def normalize_name_def)

lemma csv_variations_strings:
  "csv_variations (as_csv_player p) = Inr (map PyStr (variations p))"
  by (simp add: csv_variations_def csv_full_variations_cases as_csv_player_def variations_def
      csv_first_last_variations_def first_last_variations_def full_variations_def
      csv_parent_variations_def parent_variations_def as_pyval_simps)

lemma csv_generate_name_variations_strings:
  assumes "\<forall>xs. iter_v (map PyStr xs) = map PyStr (iter xs)"
  shows "csv_generate_name_variations iter_v (as_csv_player p)
    = Inr (generate_name_variations iter p)"
  by (simp add: csv_generate_name_variations_def csv_variations_strings assms
      generate_name_variations_def o_def csv_normalize_name_str)

lemma csv_partial_matches_strings:
  "csv_partial_matches (as_csv_player p) key vs
    = map as_csv_candidate (partial_matches p key vs)"
  by (induction vs) (auto simp: as_csv_candidate_def)

lemma csv_player_matches_strings:
  assumes "\<forall>xs. iter_v (map PyStr xs) = map PyStr (iter xs)"
  shows "csv_player_matches iter_v iter key (as_csv_player p)
    = Inr (map as_csv_candidate (player_matches iter key p))"
  by (simp add: csv_player_matches_def csv_generate_name_variations_strings [OF assms]
      player_matches_def Let_def csv_partial_matches_strings as_csv_candidate_def)

lemma csv_collect_matches_strings:
  assumes "\<forall>xs. iter_v (map PyStr xs) = map PyStr (iter xs)"
  shows "csv_collect_matches iter_v iter key (map as_csv_player ps)
    = Inr (map as_csv_candidate (collect_matches iter key ps))"
  by (induction ps) (simp_all add: csv_player_matches_strings [OF assms])

lemma csv_sort_keys_strings:
  "csv_sort_keys (map as_csv_candidate xs)
    = (case sort_keys xs of Inl e \<Rightarrow> Inl e
       | Inr ks \<Rightarrow> Inr (map (\<lambda>(k, c). (k, as_csv_candidate c)) ks))"
  by (induction xs) (auto simp: as_csv_candidate_def split: option.splits sum.splits)

lemma insort_key_fst_snd_map:
  "insort_key fst (k, f x) (map (\<lambda>(k, c). (k, f c)) ys)
    = map (\<lambda>(k, c). (k, f c)) (insort_key fst (k, x) ys)"
  by (induction ys) auto

lemma sort_key_fst_snd_map:
  "sort_key fst (map (\<lambda>(k, c). (k, f c)) xs) = map (\<lambda>(k, c). (k, f c)) (sort_key fst xs)"
  by (induction xs) (auto simp: insort_key_fst_snd_map)

lemma csv_match_strings:
  assumes "\<forall>xs. iter_v (map PyStr xs) = map PyStr (iter xs)"
  shows "csv_match_photo_to_player iter_v iter photo_name (map as_csv_player players)
    = (case match_photo_to_player iter photo_name players of
         Inl e \<Rightarrow> Inl e
       | Inr r \<Rightarrow> Inr (map as_csv_candidate r))"
proof -
  have "map snd (rev (sort_key fst (rev (map (\<lambda>(k, c). (k, as_csv_candidate c)) ks))))
      = map as_csv_candidate (sort_reverse ks)" for ks
    using sort_key_fst_snd_map [of as_csv_candidate "rev ks"]
    by (simp add: sort_reverse_def rev_map [symmetric] o_def split_def)
  then show ?thesis
    by (simp add: csv_match_photo_to_player_def match_photo_to_player_def Let_def
        csv_collect_matches_strings [OF assms] csv_sort_keys_strings split: sum.splits)
qed

section \<open>The claims about the matcher\<close>

text \<open>
  Claim C2. For every file name and every roster, the result of
  \<open>match_photo_to_player\<close> is sorted by confidence, descending: the key of a later
  candidate is never above the key of an earlier one, so no \<open>medium\<close> candidate stands
  before a \<open>high\<close> one. The sort is stable: for every confidence, the players of the
  candidates with that confidence, in the order of the result, are the players of the
  roster that yield a candidate with that confidence, in the order of the roster.
\<close>

theorem match_sorted_stable:
  "\<exists>r. match_photo_to_player iter photo_name players = Inr r
     \<and> (\<forall>c \<in> set r. confidence_order (confidence c) = Some (rank c))
     \<and> (\<forall>i j. i < j \<and> j < length r \<longrightarrow> rank (r ! j) \<le> rank (r ! i))
     \<and> (\<forall>i j. i < j \<and> j < length r \<longrightarrow>
           \<not> (confidence (r ! i) = ''medium'' \<and> confidence (r ! j) = ''high''))
     \<and> (\<forall>k. map player (filter (\<lambda>c. confidence c = k) r)
           = filter (\<lambda>p. \<exists>c \<in> set (player_matches iter (normalize_name (stem photo_name)) p).
                        confidence c = k) players)"
proof -
  let ?key = "normalize_name (stem photo_name)"
  obtain r where r: "match_photo_to_player iter photo_name players = Inr r"
    and srt: "sorted (rev (map rank r))"
    and stab: "\<And>k. filter (\<lambda>c. confidence c = k) r
          = filter (\<lambda>c. confidence c = k) (collect_matches iter ?key players)"
    using match_result [of iter photo_name players] by blast
  have tagged: "well_tagged c" if "c \<in> set r" for c
    using that match_result_set [OF r] collect_matches_tagged by blast
  have keys: "\<forall>c \<in> set r. confidence_order (confidence c) = Some (rank c)"
    using tagged by (simp add: well_tagged_rank)
  have desc: "rank (r ! j) \<le> rank (r ! i)" if "i < j" "j < length r" for i j
    using sorted_rev_nth_mono [of "map rank r" i j] srt that by simp
  have order: "\<not> (confidence (r ! i) = ''medium'' \<and> confidence (r ! j) = ''high'')"
    if "i < j" "j < length r" for i j
  proof
    assume a: "confidence (r ! i) = ''medium'' \<and> confidence (r ! j) = ''high''"
    from that have "r ! i \<in> set r" "r ! j \<in> set r" by simp_all
    then have "rank (r ! i) = 2" "rank (r ! j) = 3"
      using a tagged [THEN well_tagged_rank_cases] by fastforce+
    with desc [OF that] show False by simp
  qed
  have "map player (filter (\<lambda>c. confidence c = k) r)
      = filter (\<lambda>p. \<exists>c \<in> set (player_matches iter ?key p). confidence c = k) players" for k
    by (simp add: stab collect_matches_players)
  with r keys desc order show ?thesis by blast
qed

theorem match_sorted_stable_witness:
  "match_photo_to_player remdups ''doe.jpg'' doe_roster = Inr doe_result
   \<and> map player doe_result = [doe_roster ! 1, doe_roster ! 0, doe_roster ! 2]
   \<and> map rank doe_result = [3, 2, 2]
   \<and> map player (filter (\<lambda>c. confidence c = ''medium'') doe_result)
       = [doe_roster ! 0, doe_roster ! 2]"
  using match_sorted_stable [of remdups "''doe.jpg''" doe_roster] doe_eval
  by (simp add: doe_result_def doe_roster_def rank_def confidence_order_def)

text \<open>
  Claim C3. Every player contributes at most one candidate: the result holds no more
  candidates of a player than the roster holds copies of that player. When the normalized
  stem is among the player's variations, each copy contributes the exact candidate and
  nothing else; otherwise a candidate of the player is partial and reports the first
  variation, in the order the loop visits them, that is longer than two characters and
  contains the stem or is contained in it.
\<close>

theorem one_candidate_per_player:
  "\<exists>r. match_photo_to_player iter photo_name players = Inr r
     \<and> (\<forall>p. length (filter (\<lambda>c. player c = p) r) \<le> count_list players p)
     \<and> (\<forall>p. normalize_name (stem photo_name) \<in> set (generate_name_variations iter p) \<longrightarrow>
           filter (\<lambda>c. player c = p) r = replicate (count_list players p)
             \<lparr>player = p, confidence = ''high'', match_type = ''exact'',
              matched_variation = normalize_name (stem photo_name)\<rparr>)
     \<and> (\<forall>p. normalize_name (stem photo_name) \<notin> set (generate_name_variations iter p) \<longrightarrow>
           (\<forall>c \<in> set r. player c = p \<longrightarrow> match_type c = ''partial''
              \<and> List.find (\<lambda>v. 2 < length v \<and> (str_in v (normalize_name (stem photo_name))
                                \<or> str_in (normalize_name (stem photo_name)) v))
                   (iter (generate_name_variations iter p)) = Some (matched_variation c)))"
proof -
  let ?key = "normalize_name (stem photo_name)"
  let ?cs = "collect_matches iter ?key players"
  obtain r where r: "match_photo_to_player iter photo_name players = Inr r"
    using match_result [of iter photo_name players] by blast
  have mem: "c \<in> set (player_matches iter ?key (player c))" if "c \<in> set r" for c
    using that match_result_set [OF r] collect_matches_member by blast
  have len: "length (filter (\<lambda>c. player c = p) r)
      = (if player_matches iter ?key p = [] then 0 else count_list players p)" for p
    using match_result_count [OF r] collect_matches_count by simp
  then have one: "length (filter (\<lambda>c. player c = p) r) \<le> count_list players p" for p
    by simp
  have exact: "filter (\<lambda>c. player c = p) r = replicate (count_list players p)
      \<lparr>player = p, confidence = ''high'', match_type = ''exact'', matched_variation = ?key\<rparr>"
    if k: "?key \<in> set (generate_name_variations iter p)" for p
  proof -
    let ?e = "\<lparr>player = p, confidence = ''high'', match_type = ''exact'',
      matched_variation = ?key\<rparr>"
    from k have pm: "player_matches iter ?key p = [?e]"
      by (simp add: player_matches_def)
    then have "\<forall>c \<in> set (filter (\<lambda>c. player c = p) r). c = ?e"
      using mem by fastforce
    then have "replicate (length (filter (\<lambda>c. player c = p) r)) ?e
        = filter (\<lambda>c. player c = p) r"
      by (rule replicate_length_same)
    with len [of p] pm show ?thesis by simp
  qed
  have part: "match_type c = ''partial''
      \<and> List.find (\<lambda>v. 2 < length v \<and> (str_in v ?key \<or> str_in ?key v))
            (iter (generate_name_variations iter p)) = Some (matched_variation c)"
    if k: "?key \<notin> set (generate_name_variations iter p)" and c: "c \<in> set r" "player c = p"
    for p c
  proof -
    from mem [OF c(1)] c(2) k
    have "c \<in> set (partial_matches p ?key (iter (generate_name_variations iter p)))"
      by (simp add: player_matches_def)
    then show ?thesis
      by (auto simp: partial_matches_find split: option.splits)
  qed
  from r one exact part show ?thesis by blast
qed

theorem one_candidate_per_player_witness:
  "match_photo_to_player remdups ''doe.jpg'' doe_roster = Inr doe_result
   \<and> normalize_name (stem ''doe.jpg'') \<in> set (generate_name_variations remdups (doe_roster ! 1))
   \<and> normalize_name (stem ''doe.jpg'') \<notin> set (generate_name_variations remdups (doe_roster ! 0))
   \<and> filter (\<lambda>c. player c = doe_roster ! 1) doe_result = [doe_result ! 0]
   \<and> filter (\<lambda>c. player c = doe_roster ! 0) doe_result = [doe_result ! 1]
   \<and> count_list doe_roster (doe_roster ! 0) = 1"
proof -
  have "normalize_name (stem ''doe.jpg'') \<in> set (generate_name_variations remdups (doe_roster ! 1))"
    by code_simp
  moreover have "normalize_name (stem ''doe.jpg'') \<notin> set (generate_name_variations remdups (doe_roster ! 0))"
    by code_simp
  moreover have "filter (\<lambda>c. player c = doe_roster ! 1) doe_result = [doe_result ! 0]"
    "filter (\<lambda>c. player c = doe_roster ! 0) doe_result = [doe_result ! 1]"
    "count_list doe_roster (doe_roster ! 0) = 1"
    by (simp_all add: doe_result_def doe_roster_def person_def)
  ultimately show ?thesis
    using one_candidate_per_player [of remdups "''doe.jpg''" doe_roster] doe_eval by simp
qed

text \<open>
  Claim C4. Every candidate of the result is tagged \<open>exact\<close> and \<open>high\<close>, or
  \<open>partial\<close> and \<open>medium\<close>; the confidence \<open>low\<close> never occurs.
\<close>

theorem candidates_consistent:
  "\<exists>r. match_photo_to_player iter photo_name players = Inr r
     \<and> (\<forall>c \<in> set r. (match_type c = ''exact'' \<or> match_type c = ''partial'')
          \<and> (match_type c = ''exact'' \<longrightarrow> confidence c = ''high'')
          \<and> (match_type c = ''partial'' \<longrightarrow> confidence c = ''medium'')
          \<and> confidence c \<noteq> ''low'')"
proof -
  obtain r where r: "match_photo_to_player iter photo_name players = Inr r"
    using match_result [of iter photo_name players] by blast
  have "well_tagged c" if "c \<in> set r" for c
    using that match_result_set [OF r] collect_matches_tagged by blast
  then have "(match_type c = ''exact'' \<or> match_type c = ''partial'')
          \<and> (match_type c = ''exact'' \<longrightarrow> confidence c = ''high'')
          \<and> (match_type c = ''partial'' \<longrightarrow> confidence c = ''medium'')
          \<and> confidence c \<noteq> ''low''" if "c \<in> set r" for c
    using that well_tagged_tags by blast
  with r show ?thesis by blast
qed

theorem candidates_consistent_witness:
  "match_photo_to_player remdups ''doe.jpg'' doe_roster = Inr doe_result
   \<and> map match_type doe_result = [''exact'', ''partial'', ''partial'']
   \<and> map confidence doe_result = [''high'', ''medium'', ''medium'']"
  using candidates_consistent [of remdups "''doe.jpg''" doe_roster] doe_eval
  by (simp add: doe_result_def)

text \<open>
  On a roster whose fields are strings or \<open>None\<close> the matcher returns a sequence, which
  is empty exactly when no player matches.
\<close>

lemma string_roster_returns:
  "(\<exists>r. match_photo_to_player iter photo_name players = Inr r
      \<and> (r = [] \<longleftrightarrow> (\<forall>p \<in> set players.
            player_matches iter (normalize_name (stem photo_name)) p = [])))
   \<and> match_photo_to_player iter photo_name [] = Inr []"
proof -
  obtain r where r: "match_photo_to_player iter photo_name players = Inr r"
    using match_result [of iter photo_name players] by blast
  have "set r = set (concat (map (player_matches iter (normalize_name (stem photo_name))) players))"
    using match_result_set [OF r] by (simp add: collect_matches_concat)
  then have "r = [] \<longleftrightarrow> (\<forall>p \<in> set players.
      player_matches iter (normalize_name (stem photo_name)) p = [])"
    by (metis (no_types, lifting) concat_eq_Nil_conv imageE image_eqI list.set_map set_empty)
  moreover have "match_photo_to_player iter photo_name [] = Inr []"
    by (simp add: match_photo_to_player_sorted)
  ultimately show ?thesis using r by blast
qed

text \<open>
  Claim C5 says that \<open>match_photo_to_player\<close> never raises, whatever the input, null name
  fields included. The code does not keep it: on a roster read by the script the function
  raises \<open>AttributeError\<close> exactly when the full name of some entry is NaN, the value of an
  empty cell, and returns a sequence otherwise.
\<close>

theorem csv_match_raises:
  "(if \<exists>p \<in> set players. csv_full_name p = PyNaN
    then csv_match_photo_to_player iter_v iter photo_name players
           = Inl (AttributeError ''replace'')
    else \<exists>r. csv_match_photo_to_player iter_v iter photo_name players = Inr r)"
proof (cases "\<exists>p \<in> set players. csv_full_name p = PyNaN")
  case True
  with csv_collect_matches_cases [of players iter_v iter "normalize_name (stem photo_name)"]
  show ?thesis
    by (simp add: csv_match_photo_to_player_def)
next
  case False
  with csv_collect_matches_cases [of players iter_v iter "normalize_name (stem photo_name)"]
  obtain ms where ms: "csv_collect_matches iter_v iter (normalize_name (stem photo_name)) players
      = Inr ms" "\<forall>c \<in> set ms. csv_well_tagged c"
    by auto
  from csv_sort_keys_tagged [OF ms(2)] obtain ks where "csv_sort_keys ms = Inr ks" ..
  with ms(1) False show ?thesis
    by (simp add: csv_match_photo_to_player_def)
qed

theorem csv_match_raises_witness:
  "csv_full_name nan_full_name = PyNaN
   \<and> csv_match_photo_to_player remdups remdups ''Jane_Doe.jpg'' [nan_full_name]
       = Inl (AttributeError ''replace'')"
  using csv_match_raises [of "[nan_full_name]" remdups remdups "''Jane_Doe.jpg''"]
  by (simp add: nan_full_name_def)

text \<open>
  Claim C6. A variation of two characters or fewer takes no part in partial matching,
  whatever the file name and the roster. Every partial candidate of the result reports a
  variation of its player that is longer than two characters and that contains the
  normalized stem or lies in it. What the loop over the variations of a player appends
  does not change when the variations of two characters or fewer are left out of it. So
  a player whose variations are all that short has no partial candidate, also when such a
  variation occurs inside the stem.
\<close>

theorem short_variations_never_partial:
  assumes "set_iteration iter"
  shows "\<exists>r. match_photo_to_player iter photo_name players = Inr r
     \<and> (\<forall>c \<in> set r. match_type c = ''partial'' \<longrightarrow>
           2 < length (matched_variation c)
           \<and> matched_variation c \<in> set (generate_name_variations iter (player c))
           \<and> (str_in (matched_variation c) (normalize_name (stem photo_name))
                \<or> str_in (normalize_name (stem photo_name)) (matched_variation c)))
     \<and> (\<forall>p. partial_matches p (normalize_name (stem photo_name))
                 (iter (generate_name_variations iter p))
             = partial_matches p (normalize_name (stem photo_name))
                 (filter (\<lambda>v. 2 < length v) (iter (generate_name_variations iter p))))
     \<and> (\<forall>p. (\<forall>v \<in> set (generate_name_variations iter p). length v \<le> 2) \<longrightarrow>
             (\<forall>c \<in> set r. player c = p \<longrightarrow> match_type c \<noteq> ''partial''))"
proof -
  let ?key = "normalize_name (stem photo_name)"
  obtain r where r: "match_photo_to_player iter photo_name players = Inr r"
    using match_result [of iter photo_name players] by blast
  have long: "2 < length (matched_variation c)
      \<and> matched_variation c \<in> set (generate_name_variations iter (player c))
      \<and> (str_in (matched_variation c) ?key \<or> str_in ?key (matched_variation c))"
    if c: "c \<in> set r" and partial: "match_type c = ''partial''" for c
  proof -
    let ?vs = "iter (generate_name_variations iter (player c))"
    from c have mem: "c \<in> set (player_matches iter ?key (player c))"
      using match_result_set [OF r] collect_matches_member by blast
    from mem partial have "c \<in> set (partial_matches (player c) ?key ?vs)"
      by (rule player_matches_partial)
    then have v: "matched_variation c \<in> set ?vs" "2 < length (matched_variation c)"
      "str_in (matched_variation c) ?key \<or> str_in ?key (matched_variation c)"
      by (auto dest: partial_matches_member)
    from v(1) assms
    have "matched_variation c \<in> set (generate_name_variations iter (player c))"
      by (simp add: set_iteration_def)
    with v show ?thesis by simp
  qed
  have short: "match_type c \<noteq> ''partial''"
    if all: "\<forall>v \<in> set (generate_name_variations iter p). length v \<le> 2"
      and c: "c \<in> set r" "player c = p" for p c
  proof
    assume "match_type c = ''partial''"
    from long [OF c(1) this] c(2) all show False by fastforce
  qed
  from r long short partial_matches_long_only show ?thesis by blast
qed

theorem short_variations_never_partial_witness:
  "set_iteration remdups
   \<and> ''al'' \<in> set (generate_name_variations remdups al_li)
   \<and> str_in ''al'' (normalize_name (stem ''gallery.jpg''))
   \<and> match_photo_to_player remdups ''gallery.jpg'' [al_li] = Inr []
   \<and> generate_name_variations remdups initials_only = [''jo'']
   \<and> str_in ''jo'' (normalize_name (stem ''jo_smith.jpg''))
   \<and> match_photo_to_player remdups ''jo_smith.jpg'' [initials_only] = Inr []"
proof -
  have a: "''al'' \<in> set (generate_name_variations remdups al_li)"
    "str_in ''al'' (normalize_name (stem ''gallery.jpg''))"
    by code_simp+
  have j: "generate_name_variations remdups initials_only = [''jo'']"
    "str_in ''jo'' (normalize_name (stem ''jo_smith.jpg''))"
    by code_simp+
  from short_variations_never_partial [OF set_iteration_remdups, of "''jo_smith.jpg''"
      "[initials_only]"]
    short_variations_never_partial [OF set_iteration_remdups, of "''gallery.jpg''" "[al_li]"]
    a j al_li_eval initials_eval set_iteration_remdups
  show ?thesis by simp
qed

text \<open>
  Claim C7 (scenario A). For the roster of the single player Jane Doe, with the full
  name \<open>Jane Doe\<close> and empty parent fields, the file name \<open>Jane_Doe.jpg\<close> yields
  exactly one candidate, an exact match of confidence \<open>high\<close> for that player.
\<close>

theorem scenario_a:
  assumes "set_iteration iter"
  shows "match_photo_to_player iter ''Jane_Doe.jpg'' [jane_doe]
    = Inr [\<lparr>player = jane_doe, confidence = ''high'', match_type = ''exact'',
            matched_variation = ''jane_doe''\<rparr>]"
  using jane_doe_variation
  by (simp add: match_single jane_doe_key player_matches_def
      generate_name_variations_set [OF assms] del: set_filter)

theorem scenario_a_witness:
  "set_iteration remdups
   \<and> match_photo_to_player remdups ''Jane_Doe.jpg'' [jane_doe]
    = Inr [\<lparr>player = jane_doe, confidence = ''high'', match_type = ''exact'',
            matched_variation = ''jane_doe''\<rparr>]"
  using scenario_a [OF set_iteration_remdups] set_iteration_remdups by simp

text \<open>
  Claim C10. For the roster of the single player with first name \<open>Jane\<close> and last name
  \<open>Doe\<close> and no full name, the file name \<open>team_photo_janedoe_2025.png\<close> yields one
  candidate, a partial match of confidence \<open>medium\<close> for that player. The variation
  \<open>Jane.Doe\<close> normalizes to \<open>janedoe\<close>, which occurs in the normalized stem; the
  variation reported is \<open>janedoe\<close>, \<open>jane\<close> or \<open>doe\<close>, whichever the loop visits first.
\<close>

theorem scenario_janedoe:
  assumes "set_iteration iter"
  shows "\<exists>v. match_photo_to_player iter ''team_photo_janedoe_2025.png'' [jane_only]
      = Inr [\<lparr>player = jane_only, confidence = ''medium'', match_type = ''partial'',
              matched_variation = v\<rparr>]
    \<and> (v = ''janedoe'' \<or> v = ''jane'' \<or> v = ''doe'')
    \<and> normalize_name ''Jane.Doe'' = ''janedoe''
    \<and> ''Jane.Doe'' \<in> set (variations jane_only)
    \<and> str_in ''janedoe'' (normalize_name (stem ''team_photo_janedoe_2025.png''))"
proof -
  let ?key = "''team_photo_janedoe_2025''"
  let ?vs = "generate_name_variations iter jane_only"
  have vs: "set ?vs = {''jane doe'', ''doe jane'', ''jane_doe'', ''doe_jane'', ''janedoe'',
      ''doejane'', ''jane'', ''doe''}"
    unfolding generate_name_variations_set [OF assms] jane_only_variations by auto
  then have notin: "?key \<notin> set ?vs" by simp
  from assms have it: "set (iter ?vs) = set ?vs"
    by (simp add: set_iteration_def)
  have "''janedoe'' \<in> set (iter ?vs)" using it vs by simp
  with janedoe_inside have "partial_matches jane_only ?key (iter ?vs) \<noteq> []"
    unfolding partial_matches_Nil_iff by (fastforce simp del: str_in.simps)
  with partial_matches_cases [of jane_only ?key "iter ?vs"]
  obtain v where v: "v \<in> set (iter ?vs)"
    "partial_matches jane_only ?key (iter ?vs) =
        [\<lparr>player = jane_only, confidence = ''medium'', match_type = ''partial'',
          matched_variation = v\<rparr>]"
    "2 < length v" "str_in v ?key \<or> str_in ?key v"
    by blast
  have sub: "\<not> str_in ''jane doe'' ?key" "\<not> str_in ?key ''jane doe''"
    "\<not> str_in ''doe jane'' ?key" "\<not> str_in ?key ''doe jane''"
    "\<not> str_in ''jane_doe'' ?key" "\<not> str_in ?key ''jane_doe''"
    "\<not> str_in ''doe_jane'' ?key" "\<not> str_in ?key ''doe_jane''"
    "\<not> str_in ''doejane'' ?key" "\<not> str_in ?key ''doejane''"
    by code_simp+
  from v(1) it vs have "v \<in> {''jane doe'', ''doe jane'', ''jane_doe'', ''doe_jane'', ''janedoe'',
      ''doejane'', ''jane'', ''doe''}"
    by simp
  with v(4) sub have which: "v = ''janedoe'' \<or> v = ''jane'' \<or> v = ''doe''"
    by (auto simp del: str_in.simps)
  have res: "match_photo_to_player iter ''team_photo_janedoe_2025.png'' [jane_only]
      = Inr [\<lparr>player = jane_only, confidence = ''medium'', match_type = ''partial'',
              matched_variation = v\<rparr>]"
    using notin v(2) by (simp add: match_single team_photo_key player_matches_def)
  have n: "normalize_name ''Jane.Doe'' = ''janedoe''" by code_simp
  have m: "''Jane.Doe'' \<in> set (variations jane_only)" by code_simp
  from res which n m janedoe_inside show ?thesis
    by (simp add: team_photo_key)
qed

theorem scenario_janedoe_witness:
  "set_iteration remdups
   \<and> match_photo_to_player remdups ''team_photo_janedoe_2025.png'' [jane_only]
      = Inr [\<lparr>player = jane_only, confidence = ''medium'', match_type = ''partial'',
              matched_variation = ''janedoe''\<rparr>]"
  using scenario_janedoe [OF set_iteration_remdups] set_iteration_remdups jane_only_eval
  by simp

text \<open>
  Claim C8. \<open>create_photo_mappings\<close> builds one mapping per photo. When the match
  result of the photo is not empty, its first element gives the matched player, the
  confidence and the match type, and the alternatives are the elements at the indexes 1
  and 2 of the result, as far as they exist, and no others. When the match result is
  empty, the mapping has the confidence \<open>medium\<close>, the match type \<open>no_match\<close>, an empty
  matched player and no alternatives.
\<close>

theorem best_match_and_alternatives:
  "\<exists>ms. create_photo_mappings iter photos players = Inr ms \<and> length ms = length photos
     \<and> (\<forall>i < length photos.
          \<exists>r. match_photo_to_player iter (name_photo (photos ! i)) players = Inr r
            \<and> (r = [] \<longrightarrow>
                  m_matched_player (ms ! i) = Some [] \<and> m_confidence (ms ! i) = ''medium''
                  \<and> m_match_type (ms ! i) = ''no_match''
                  \<and> m_alternative_matches (ms ! i) = [])
            \<and> (r \<noteq> [] \<longrightarrow>
                  m_matched_player (ms ! i) = full_name (player (r ! 0))
                  \<and> m_confidence (ms ! i) = confidence (r ! 0)
                  \<and> m_match_type (ms ! i) = match_type (r ! 0)
                  \<and> length (m_alternative_matches (ms ! i)) = min 2 (length r - 1)
                  \<and> (\<forall>j < length (m_alternative_matches (ms ! i)).
                        m_alternative_matches (ms ! i) ! j = alternative (r ! (j + 1)))))"
proof -
  let ?res = "\<lambda>ph. rev (sort_key rank (rev
       (collect_matches iter (normalize_name (stem (name_photo ph))) players)))"
  let ?ms = "map (\<lambda>ph. photo_mapping ph (?res ph)) photos"
  have "\<exists>r. match_photo_to_player iter (name_photo (photos ! i)) players = Inr r
            \<and> (r = [] \<longrightarrow>
                  m_matched_player (?ms ! i) = Some [] \<and> m_confidence (?ms ! i) = ''medium''
                  \<and> m_match_type (?ms ! i) = ''no_match''
                  \<and> m_alternative_matches (?ms ! i) = [])
            \<and> (r \<noteq> [] \<longrightarrow>
                  m_matched_player (?ms ! i) = full_name (player (r ! 0))
                  \<and> m_confidence (?ms ! i) = confidence (r ! 0)
                  \<and> m_match_type (?ms ! i) = match_type (r ! 0)
                  \<and> length (m_alternative_matches (?ms ! i)) = min 2 (length r - 1)
                  \<and> (\<forall>j < length (m_alternative_matches (?ms ! i)).
                        m_alternative_matches (?ms ! i) ! j = alternative (r ! (j + 1))))"
    if "i < length photos" for i
  proof -
    from that have nth: "?ms ! i = photo_mapping (photos ! i) (?res (photos ! i))" by simp
    show ?thesis
      unfolding nth match_photo_to_player_sorted
      using photo_mapping_empty [of "photos ! i"]
        photo_mapping_best [of "?res (photos ! i)" "photos ! i"]
      by (intro exI [of _ "?res (photos ! i)"]) metis
  qed
  then show ?thesis
    unfolding create_photo_mappings_map by (intro exI [of _ ?ms]) simp
qed

theorem best_match_and_alternatives_witness:
  "create_photo_mappings remdups doe_photos doe_roster = Inr
     [photo_mapping (doe_photos ! 0) doe_result, photo_mapping (doe_photos ! 1) []]
   \<and> m_matched_player (photo_mapping (doe_photos ! 0) doe_result) = Some ''Jon Doe''
   \<and> m_alternative_matches (photo_mapping (doe_photos ! 0) doe_result)
       = [''Jane Doey (medium)'', ''Amy Doeson (medium)'']
   \<and> m_match_type (photo_mapping (doe_photos ! 1) []) = ''no_match''
   \<and> m_confidence (photo_mapping (doe_photos ! 1) []) = ''medium''"
proof -
  have e: "create_photo_mappings remdups doe_photos doe_roster = Inr
     [photo_mapping (doe_photos ! 0) doe_result, photo_mapping (doe_photos ! 1) []]"
    by (simp add: doe_photos_def doe_eval zzz_eval)
  have f: "m_matched_player (photo_mapping (doe_photos ! 0) doe_result) = Some ''Jon Doe''"
    "m_alternative_matches (photo_mapping (doe_photos ! 0) doe_result)
       = [''Jane Doey (medium)'', ''Amy Doeson (medium)'']"
    by (simp_all add: photo_mapping_def doe_result_def alternative_def person_def)
  from best_match_and_alternatives [of remdups doe_photos doe_roster] e f
  show ?thesis
    by (simp add: photo_mapping_empty)
qed

end
